theory Spec2Isabelle
  imports Main "HOL-Library.AList" "HOL-Library.Sublist"
begin

section \<open>Data model (types/data)\<close>

text \<open>
  The records follow the interfaces \<open>ClientData\<close>, \<open>WorkerData\<close>, \<open>TaskData\<close>,
  \<open>BusinessRule\<close> and \<open>ValidationError\<close>. The engine reads its records at run time
  with \<open>!x\<close>, \<open>x || d\<close> and \<open>x?.f\<close>, so a property may be absent whatever the interface
  declares: every property of a client, a worker or a task that the engine reads, and
  every rule parameter, is an \<open>option\<close>, \<open>None\<close> standing for \<open>undefined\<close>. For a numeric property \<open>None\<close> also stands for \<open>NaN\<close>: both are
  falsy, both make every comparison false and both turn a sum into \<open>NaN\<close>.

  Numbers are modelled as \<open>int\<close>: phase numbers, durations and loads are integers in the
  data model, and on integers below \<open>2^53\<close> the arithmetic of the engine (addition and
  comparison only) is exact. Elements of a list that is present are proper values
  (strings, integers). Properties the engine never reads (\<open>Email\<close>, \<open>Name\<close>,
  \<open>Phase\<close>, \<open>Budget\<close>, \<open>EstimatedDuration\<close>, \<open>Priority\<close>) are left out.
\<close>

datatype error = TypeError

datatype attributes = AttrObject | AttrString string

record ClientData =
  ClientID :: "string option"
  ClientName :: "string option"
  PriorityLevel :: "int option"
  RequestedTaskIDs :: "string list option"
  GroupTag :: "string option"
  AttributesJSON :: "attributes option"

record WorkerData =
  WorkerID :: "string option"
  WorkerName :: "string option"
  Skills :: "string list option"
  AvailableSlots :: "int list option"
  MaxLoadPerPhase :: "int option"
  WorkerGroup :: "string option"
  QualificationLevel :: "int option"

record TaskData =
  TaskID :: "string option"
  TaskName :: "string option"
  Category :: "string option"
  Duration :: "int option"
  RequiredSkills :: "string list option"
  PreferredPhases :: "int list option"
  MaxConcurrent :: "int option"

datatype rule_type =
  coRun | slotRestriction | loadLimit | phaseWindow | patternMatch | precedenceOverride

text \<open>
  \<open>parameters\<close> is a \<open>Record<string, any>\<close>; the engine reads the keys \<open>tasks\<close>,
  \<open>taskId\<close> and \<open>allowedPhases\<close> only (the fields \<open>p_tasks\<close>, \<open>p_taskId\<close> and
  \<open>p_allowedPhases\<close>).
\<close>

record rule_parameters =
  p_tasks :: "string list option"
  p_taskId :: "string option"
  p_allowedPhases :: "int list option"

record BusinessRule =
  rule_id :: string
  rule_type :: rule_type
  rule_name :: string
  description :: string
  parameters :: rule_parameters
  active :: bool

datatype severity = Error | Warning

datatype entity_kind = clients | workers | tasks_entity

record ValidationError =
  id_f :: string
  type_f :: severity
  entity :: entity_kind
  entityId :: "string option"
  field_f :: "string option"
  message :: string
  suggestion :: "string option"

section \<open>JavaScript primitives used by the engine\<close>

text \<open>Truthiness: \<open>undefined\<close>, the empty string, \<open>0\<close> and \<open>NaN\<close> are falsy.\<close>

definition truthy_str :: "string option \<Rightarrow> bool" where
  "truthy_str s = (case s of None \<Rightarrow> False | Some v \<Rightarrow> v \<noteq> [])"

definition truthy_num :: "int option \<Rightarrow> bool" where
  "truthy_num n = (case n of None \<Rightarrow> False | Some v \<Rightarrow> v \<noteq> 0)"

text \<open>\<open>s || d\<close> on a string property.\<close>

definition or_str :: "string option \<Rightarrow> string \<Rightarrow> string" where
  "or_str s d = (case s of None \<Rightarrow> d | Some v \<Rightarrow> if v = [] then d else v)"

text \<open>\<open>xs || []\<close> on a list property: an empty array is truthy and stays.\<close>

definition or_empty :: "'a list option \<Rightarrow> 'a list" where
  "or_empty xs = (case xs of None \<Rightarrow> [] | Some v \<Rightarrow> v)"

text \<open>\<open>a < b\<close> and \<open>a > b\<close> on numbers: false as soon as one side is not a number.\<close>

definition js_lt :: "int option \<Rightarrow> int option \<Rightarrow> bool" where
  "js_lt a b = (case a of None \<Rightarrow> False | Some x \<Rightarrow> (case b of None \<Rightarrow> False | Some y \<Rightarrow> x < y))"

definition js_gt :: "int option \<Rightarrow> int option \<Rightarrow> bool" where
  "js_gt a b = js_lt b a"

text \<open>Decimal rendering of a number inside a template literal.\<close>

definition digit_char :: "nat \<Rightarrow> char" where
  "digit_char d = ''0123456789'' ! d"

fun digits :: "nat \<Rightarrow> string" where
  "digits n = (if n < 10 then [digit_char n] else digits (n div 10) @ [digit_char (n mod 10)])"

declare digits.simps [simp del]

definition tmpl_int :: "int \<Rightarrow> string" where
  "tmpl_int i = (if i < 0 then CHR ''-'' # digits (nat (- i)) else digits (nat i))"

text \<open>
  A numeric property inside a template literal. The engine prints one only after a
  comparison that a non-number fails, so the rendering of \<open>None\<close> is never shown.
\<close>

definition tmpl_num :: "int option \<Rightarrow> string" where
  "tmpl_num n = (case n of None \<Rightarrow> ''NaN'' | Some i \<Rightarrow> tmpl_int i)"

text \<open>A string property inside a template literal: \<open>undefined\<close> prints as such.\<close>

definition tmpl_str :: "string option \<Rightarrow> string" where
  "tmpl_str s = (case s of None \<Rightarrow> ''undefined'' | Some v \<Rightarrow> v)"

text \<open>\<open>xs.join(", ")\<close>.\<close>

fun join_comma :: "string list \<Rightarrow> string" where
  "join_comma [] = []"
| "join_comma [x] = x"
| "join_comma (x # y # ys) = x @ '', '' @ join_comma (y # ys)"

text \<open>\<open>xs.indexOf(x)\<close>: the first index of \<open>x\<close>, or \<open>-1\<close>.\<close>

fun indexOf :: "'a list \<Rightarrow> 'a \<Rightarrow> int" where
  "indexOf [] x = -1"
| "indexOf (y # ys) x = (if y = x then 0 else (let i = indexOf ys x in if i = -1 then -1 else i + 1))"

text \<open>\<open>xs.filter((x, index) => p(x, index))\<close>.\<close>

definition filter_index :: "('a \<Rightarrow> int \<Rightarrow> bool) \<Rightarrow> 'a list \<Rightarrow> 'a list" where
  "filter_index p xs = map fst (filter (\<lambda>(x, i). p x (int i)) (zip xs [0 ..< length xs]))"

text \<open>\<open>[...new Set(xs)]\<close>: the elements of \<open>xs\<close> in the order of their first occurrence.\<close>

fun set_insert_all :: "'a list \<Rightarrow> 'a list \<Rightarrow> 'a list" where
  "set_insert_all seen [] = seen"
| "set_insert_all seen (x # xs) = set_insert_all (if x \<in> set seen then seen else seen @ [x]) xs"

definition new_Set :: "'a list \<Rightarrow> 'a list" where
  "new_Set xs = set_insert_all [] xs"

text \<open>
  A loop whose body pushes findings and may throw: the findings pushed by the whole loop,
  or the first exception. \<open>errors.push\<close> on the shared array is the append of the
  findings to those pushed before.
\<close>

fun for_each :: "('a \<Rightarrow> error + 'b list) \<Rightarrow> 'a list \<Rightarrow> error + 'b list" where
  "for_each body [] = Inr []"
| "for_each body (x # xs) =
     (case body x of
        Inl e \<Rightarrow> Inl e
      | Inr fs \<Rightarrow> (case for_each body xs of Inl e \<Rightarrow> Inl e | Inr gs \<Rightarrow> Inr (fs @ gs)))"

text \<open>Two statements in sequence, each pushing findings or throwing.\<close>

definition and_then :: "error + 'b list \<Rightarrow> error + 'b list \<Rightarrow> error + 'b list" where
  "and_then a b =
     (case a of Inl e \<Rightarrow> Inl e | Inr fs \<Rightarrow> (case b of Inl e \<Rightarrow> Inl e | Inr gs \<Rightarrow> Inr (fs @ gs)))"

section \<open>The validation engine (lib/validation-engine)\<close>

subsection \<open>1. Missing required fields\<close>

text \<open>
  \<open>!client[field]\<close> for the three required client fields, and
  \<open>!x[field] || (Array.isArray(x[field]) && x[field].length === 0)\<close> for the required
  worker and task fields.
\<close>

definition client_field_missing :: "ClientData \<Rightarrow> string \<Rightarrow> bool" where
  "client_field_missing c f =
     (if f = ''ClientID'' then \<not> truthy_str (ClientID c)
      else if f = ''ClientName'' then \<not> truthy_str (ClientName c)
      else if f = ''PriorityLevel'' then \<not> truthy_num (PriorityLevel c)
      else True)"

definition list_missing :: "'a list option \<Rightarrow> bool" where
  "list_missing xs = (case xs of None \<Rightarrow> True | Some v \<Rightarrow> v = [])"

definition worker_field_missing :: "WorkerData \<Rightarrow> string \<Rightarrow> bool" where
  "worker_field_missing w f =
     (if f = ''WorkerID'' then \<not> truthy_str (WorkerID w)
      else if f = ''WorkerName'' then \<not> truthy_str (WorkerName w)
      else if f = ''Skills'' then list_missing (Skills w)
      else if f = ''AvailableSlots'' then list_missing (AvailableSlots w)
      else if f = ''MaxLoadPerPhase'' then \<not> truthy_num (MaxLoadPerPhase w)
      else True)"

definition task_field_missing :: "TaskData \<Rightarrow> string \<Rightarrow> bool" where
  "task_field_missing t f =
     (if f = ''TaskID'' then \<not> truthy_str (TaskID t)
      else if f = ''TaskName'' then \<not> truthy_str (TaskName t)
      else if f = ''Duration'' then \<not> truthy_num (Duration t)
      else if f = ''RequiredSkills'' then list_missing (RequiredSkills t)
      else True)"

definition requiredClientFields :: "string list" where
  "requiredClientFields = [''ClientID'', ''ClientName'', ''PriorityLevel'']"

definition requiredWorkerFields :: "string list" where
  "requiredWorkerFields =
     [''WorkerID'', ''WorkerName'', ''Skills'', ''AvailableSlots'', ''MaxLoadPerPhase'']"

definition requiredTaskFields :: "string list" where
  "requiredTaskFields = [''TaskID'', ''TaskName'', ''Duration'', ''RequiredSkills'']"

definition missing_finding ::
  "string \<Rightarrow> entity_kind \<Rightarrow> string option \<Rightarrow> string \<Rightarrow> string \<Rightarrow> ValidationError" where
  \<open>missing_finding kind ent key f tail =
     \<lparr> id_f = kind @ ''-'' @ or_str key ''unknown'' @ ''-missing-'' @ f,
       type_f = Error,
       entity = ent,
       entityId = Some (or_str key ''Unknown''),
       field_f = Some f,
       message = ''Required field "'' @ f @ ''" is missing'' @ tail,
       suggestion = Some (''Add a value for '' @ f) \<rparr>\<close>

definition validateRequiredFields ::
  "ClientData list \<Rightarrow> WorkerData list \<Rightarrow> TaskData list \<Rightarrow> ValidationError list" where
  "validateRequiredFields clientsData workersData tasksData =
     concat (map (\<lambda>client.
       map (\<lambda>f. missing_finding ''client'' clients (ClientID client) f [])
         (filter (client_field_missing client) requiredClientFields)) clientsData)
     @ concat (map (\<lambda>worker.
       map (\<lambda>f. missing_finding ''worker'' workers (WorkerID worker) f '' or empty'')
         (filter (worker_field_missing worker) requiredWorkerFields)) workersData)
     @ concat (map (\<lambda>task.
       map (\<lambda>f. missing_finding ''task'' tasks_entity (TaskID task) f '' or empty'')
         (filter (task_field_missing task) requiredTaskFields)) tasksData)"

subsection \<open>2. Duplicate IDs\<close>

text \<open>
  \<open>ids.map(key).filter((id) => id)\<close> keeps the keys that are set and not empty;
  \<open>filter((id, index) => ids.indexOf(id) !== index)\<close> keeps every occurrence but the
  first; the set of those gives one finding per duplicated key.
\<close>

definition truthy_ids :: "string option list \<Rightarrow> string list" where
  "truthy_ids ks = map (\<lambda>k. or_str k []) (filter truthy_str ks)"

definition duplicate_ids :: "string list \<Rightarrow> string list" where
  "duplicate_ids ids = new_Set (filter_index (\<lambda>x index. indexOf ids x \<noteq> index) ids)"

definition duplicate_finding ::
  "string \<Rightarrow> string \<Rightarrow> entity_kind \<Rightarrow> string \<Rightarrow> ValidationError" where
  "duplicate_finding kind Kind ent duplicateId =
     \<lparr> id_f = ''duplicate-'' @ kind @ ''-'' @ duplicateId,
       type_f = Error,
       entity = ent,
       entityId = Some duplicateId,
       field_f = None,
       message = ''Duplicate '' @ Kind @ '' ID: '' @ duplicateId,
       suggestion = Some (''Ensure all '' @ Kind @ '' IDs are unique'') \<rparr>"

definition validateDuplicateIds ::
  "ClientData list \<Rightarrow> WorkerData list \<Rightarrow> TaskData list \<Rightarrow> ValidationError list" where
  "validateDuplicateIds clientsData workersData tasksData =
     map (duplicate_finding ''client'' ''Client'' clients)
       (duplicate_ids (truthy_ids (map ClientID clientsData)))
     @ map (duplicate_finding ''worker'' ''Worker'' workers)
       (duplicate_ids (truthy_ids (map WorkerID workersData)))
     @ map (duplicate_finding ''task'' ''Task'' tasks_entity)
       (duplicate_ids (truthy_ids (map TaskID tasksData)))"

subsection \<open>3. Malformed lists\<close>

text \<open>
  \<open>typeof slot !== "number" || isNaN(slot)\<close>: the elements of the model are integers,
  so the test fails on each of them. \<open>worker.AvailableSlots.some(...)\<close> and
  \<open>task.PreferredPhases.some(...)\<close> throw a TypeError on an absent list.
\<close>

definition not_numeric :: "int \<Rightarrow> bool" where
  "not_numeric slot = False"

definition malformed_slots :: "WorkerData \<Rightarrow> error + ValidationError list" where
  "malformed_slots worker =
     (case AvailableSlots worker of
        None \<Rightarrow> Inl TypeError
      | Some slots \<Rightarrow>
          Inr (if list_ex not_numeric slots then
            [\<lparr> id_f = ''worker-'' @ tmpl_str (WorkerID worker) @ ''-malformed-slots'',
               type_f = Error,
               entity = workers,
               entityId = WorkerID worker,
               field_f = Some ''AvailableSlots'',
               message = ''Available slots must contain only numeric values'',
               suggestion = Some ''Ensure all slot values are valid numbers'' \<rparr>]
          else []))"

definition malformed_phases :: "TaskData \<Rightarrow> error + ValidationError list" where
  "malformed_phases task =
     (case PreferredPhases task of
        None \<Rightarrow> Inl TypeError
      | Some phases \<Rightarrow>
          Inr (if list_ex not_numeric phases then
            [\<lparr> id_f = ''task-'' @ tmpl_str (TaskID task) @ ''-malformed-phases'',
               type_f = Error,
               entity = tasks_entity,
               entityId = TaskID task,
               field_f = Some ''PreferredPhases'',
               message = ''Preferred phases must contain only numeric values'',
               suggestion = Some ''Ensure all phase values are valid numbers'' \<rparr>]
          else []))"

definition validateMalformedLists ::
  "ClientData list \<Rightarrow> WorkerData list \<Rightarrow> TaskData list \<Rightarrow> error + ValidationError list" where
  "validateMalformedLists clientsData workersData tasksData =
     and_then (for_each malformed_slots workersData) (for_each malformed_phases tasksData)"

subsection \<open>4. Out-of-range values\<close>

definition range_client :: "ClientData \<Rightarrow> ValidationError list" where
  "range_client client =
     (if js_lt (PriorityLevel client) (Some 1) \<or> js_gt (PriorityLevel client) (Some 5) then
        [\<lparr> id_f = ''client-'' @ tmpl_str (ClientID client) @ ''-invalid-priority'',
           type_f = Error,
           entity = clients,
           entityId = ClientID client,
           field_f = Some ''PriorityLevel'',
           message = ''Priority level must be between 1-5, got '' @ tmpl_num (PriorityLevel client),
           suggestion = Some ''Set priority level to a value between 1 (lowest) and 5 (highest)'' \<rparr>]
      else [])"

definition range_task :: "TaskData \<Rightarrow> ValidationError list" where
  "range_task task =
     (if js_lt (Duration task) (Some 1) then
        [\<lparr> id_f = ''task-'' @ tmpl_str (TaskID task) @ ''-invalid-duration'',
           type_f = Error,
           entity = tasks_entity,
           entityId = TaskID task,
           field_f = Some ''Duration'',
           message = ''Duration must be at least 1, got '' @ tmpl_num (Duration task),
           suggestion = Some ''Set duration to a positive number of phases'' \<rparr>]
      else [])
     @ (if js_lt (MaxConcurrent task) (Some 1) then
        [\<lparr> id_f = ''task-'' @ tmpl_str (TaskID task) @ ''-invalid-concurrent'',
           type_f = Error,
           entity = tasks_entity,
           entityId = TaskID task,
           field_f = Some ''MaxConcurrent'',
           message = ''Max concurrent must be at least 1'',
           suggestion = Some ''Set a positive number for maximum parallel assignments'' \<rparr>]
      else [])"

text \<open>\<open>worker.AvailableSlots.some((slot) => slot < 1)\<close> throws on an absent list.\<close>

definition range_worker :: "WorkerData \<Rightarrow> error + ValidationError list" where
  "range_worker worker =
     and_then
       (Inr (if js_lt (MaxLoadPerPhase worker) (Some 1) then
          [\<lparr> id_f = ''worker-'' @ tmpl_str (WorkerID worker) @ ''-invalid-load'',
             type_f = Error,
             entity = workers,
             entityId = WorkerID worker,
             field_f = Some ''MaxLoadPerPhase'',
             message = ''Max load per phase must be at least 1'',
             suggestion = Some ''Set a positive number for maximum workload capacity'' \<rparr>]
        else []))
       (case AvailableSlots worker of
          None \<Rightarrow> Inl TypeError
        | Some slots \<Rightarrow>
            Inr (if list_ex (\<lambda>slot. slot < 1) slots then
              [\<lparr> id_f = ''worker-'' @ tmpl_str (WorkerID worker) @ ''-invalid-slots'',
                 type_f = Error,
                 entity = workers,
                 entityId = WorkerID worker,
                 field_f = Some ''AvailableSlots'',
                 message = ''Available slots must be positive numbers'',
                 suggestion = Some ''Ensure all phase numbers are 1 or greater'' \<rparr>]
            else []))"

definition validateRangeValues ::
  "ClientData list \<Rightarrow> WorkerData list \<Rightarrow> TaskData list \<Rightarrow> error + ValidationError list" where
  "validateRangeValues clientsData workersData tasksData =
     and_then (Inr (concat (map range_client clientsData)))
       (and_then (Inr (concat (map range_task tasksData)))
          (for_each range_worker workersData))"

subsection \<open>5. Broken JSON\<close>

text \<open>
  \<open>JSON.parse\<close> belongs to the language, not to the engine: whether a string parses is
  the parameter \<open>json_parses\<close>. The \<open>catch\<close> turns the exception into a finding.
\<close>

definition json_client :: "(string \<Rightarrow> bool) \<Rightarrow> ClientData \<Rightarrow> ValidationError list" where
  "json_client json_parses client =
     (case AttributesJSON client of
        Some (AttrString s) \<Rightarrow>
          (if s \<noteq> [] \<and> \<not> json_parses s then
             [\<lparr> id_f = ''client-'' @ tmpl_str (ClientID client) @ ''-broken-json'',
                type_f = Error,
                entity = clients,
                entityId = ClientID client,
                field_f = Some ''AttributesJSON'',
                message = ''Invalid JSON format in AttributesJSON field'',
                suggestion = Some ''Fix the JSON syntax or use the object format'' \<rparr>]
           else [])
      | _ \<Rightarrow> [])"

definition validateJSONFields :: "(string \<Rightarrow> bool) \<Rightarrow> ClientData list \<Rightarrow> ValidationError list" where
  "validateJSONFields json_parses clientsData = concat (map (json_client json_parses) clientsData)"

subsection \<open>6. Unknown references\<close>

definition unknown_task_finding :: "ClientData \<Rightarrow> string \<Rightarrow> ValidationError" where
  \<open>unknown_task_finding client taskId =
     \<lparr> id_f = ''client-'' @ tmpl_str (ClientID client) @ ''-unknown-task-'' @ taskId,
       type_f = Error,
       entity = clients,
       entityId = ClientID client,
       field_f = Some ''RequestedTaskIDs'',
       message = ''Requested task "'' @ taskId @ ''" does not exist'',
       suggestion = Some ''Remove this task ID or add the corresponding task to the tasks data'' \<rparr>\<close>

text \<open>\<open>for (const taskId of client.RequestedTaskIDs)\<close> throws on an absent list.\<close>

definition references_client :: "string option list \<Rightarrow> ClientData \<Rightarrow> error + ValidationError list" where
  "references_client taskIds client =
     (case RequestedTaskIDs client of
        None \<Rightarrow> Inl TypeError
      | Some requested \<Rightarrow>
          Inr (map (unknown_task_finding client)
                 (filter (\<lambda>taskId. Some taskId \<notin> set taskIds) requested)))"

definition validateReferences ::
  "ClientData list \<Rightarrow> WorkerData list \<Rightarrow> TaskData list \<Rightarrow> error + ValidationError list" where
  "validateReferences clientsData workersData tasksData =
     (let taskIds = new_Set (map TaskID tasksData)
      in for_each (references_client taskIds) clientsData)"

subsection \<open>7. Circular co-run groups\<close>

text \<open>
  \<open>coRunRules.filter((r) => r.id !== rule.id && r.parameters.tasks?.includes(taskId))\<close>,
  and the tasks the two nested loops of \<open>hasCycle\<close> go through: those of the first
  related rule, then those of the second, and so on.
\<close>

definition relatedRules :: "BusinessRule list \<Rightarrow> BusinessRule \<Rightarrow> string \<Rightarrow> BusinessRule list" where
  "relatedRules coRunRules rule taskId =
     filter (\<lambda>r. rule_id r \<noteq> rule_id rule \<and>
                 (case p_tasks (parameters r) of None \<Rightarrow> False | Some ts \<Rightarrow> taskId \<in> set ts))
       coRunRules"

definition relatedTasks :: "BusinessRule list \<Rightarrow> BusinessRule \<Rightarrow> string \<Rightarrow> string list" where
  "relatedTasks coRunRules rule taskId =
     concat (map (\<lambda>relatedRule. or_empty (p_tasks (parameters relatedRule)))
               (relatedRules coRunRules rule taskId))"

text \<open>
  \<open>hasCycle\<close> is recursive and shares the sets \<open>visited\<close> and \<open>recursionStack\<close> of the
  rule being scanned: the model passes the pair of sets and returns it with the answer.
  The first argument bounds the depth of the recursion; \<open>None\<close> is a traversal cut off
  at that depth. \<open>hasCycle_loop\<close> is the loop over the related tasks, left by
  \<open>return true\<close> at the first related task that reports a cycle; after the loop the
  task leaves the recursion stack.
\<close>

type_synonym dfs_state = "string set \<times> string set"

fun hasCycle ::
  "nat \<Rightarrow> BusinessRule list \<Rightarrow> BusinessRule \<Rightarrow> string \<Rightarrow> dfs_state \<Rightarrow> (bool \<times> dfs_state) option"
and hasCycle_loop ::
  "nat \<Rightarrow> BusinessRule list \<Rightarrow> BusinessRule \<Rightarrow> string \<Rightarrow> string list \<Rightarrow> dfs_state
     \<Rightarrow> (bool \<times> dfs_state) option"
where
  "hasCycle 0 coRunRules rule taskId st = None"
| "hasCycle (Suc depth) coRunRules rule taskId (visited, recursionStack) =
     (if taskId \<in> recursionStack then Some (True, visited, recursionStack)
      else if taskId \<in> visited then Some (False, visited, recursionStack)
      else
        (case hasCycle_loop depth coRunRules rule taskId (relatedTasks coRunRules rule taskId)
                (insert taskId visited, insert taskId recursionStack) of
           None \<Rightarrow> None
         | Some (True, st') \<Rightarrow> Some (True, st')
         | Some (False, visited', recursionStack') \<Rightarrow>
             Some (False, visited', recursionStack' - {taskId})))"
| "hasCycle_loop depth coRunRules rule taskId [] st = Some (False, st)"
| "hasCycle_loop depth coRunRules rule taskId (relatedTask # rest) st =
     (if relatedTask \<noteq> taskId then
        (case hasCycle depth coRunRules rule relatedTask st of
           None \<Rightarrow> None
         | Some (True, st') \<Rightarrow> Some (True, st')
         | Some (False, st') \<Rightarrow> hasCycle_loop depth coRunRules rule taskId rest st')
      else hasCycle_loop depth coRunRules rule taskId rest st)"

definition circular_finding :: "BusinessRule \<Rightarrow> string \<Rightarrow> ValidationError" where
  \<open>circular_finding rule taskId =
     \<lparr> id_f = ''circular-corun-'' @ rule_id rule,
       type_f = Error,
       entity = tasks_entity,
       entityId = Some taskId,
       field_f = None,
       message = ''Circular co-run dependency detected in rule "'' @ rule_name rule @ ''"'',
       suggestion = Some ''Remove circular dependencies between co-run task groups'' \<rparr>\<close>

text \<open>The scan of one rule's task list: one finding at the first cycle, then \<open>break\<close>.\<close>

fun scan_rule ::
  "nat \<Rightarrow> BusinessRule list \<Rightarrow> BusinessRule \<Rightarrow> string list \<Rightarrow> dfs_state
     \<Rightarrow> ValidationError list option"
where
  "scan_rule depth coRunRules rule [] st = Some []"
| "scan_rule depth coRunRules rule (taskId # rest) st =
     (case hasCycle depth coRunRules rule taskId st of
        None \<Rightarrow> None
      | Some (True, st') \<Rightarrow> Some [circular_finding rule taskId]
      | Some (False, st') \<Rightarrow> scan_rule depth coRunRules rule rest st')"

definition circular_rule :: "nat \<Rightarrow> BusinessRule list \<Rightarrow> BusinessRule \<Rightarrow> ValidationError list option" where
  "circular_rule depth coRunRules rule =
     scan_rule depth coRunRules rule (or_empty (p_tasks (parameters rule))) ({}, {})"

fun for_each_rule :: "('a \<Rightarrow> 'b list option) \<Rightarrow> 'a list \<Rightarrow> 'b list option" where
  "for_each_rule body [] = Some []"
| "for_each_rule body (x # xs) =
     (case body x of
        None \<Rightarrow> None
      | Some fs \<Rightarrow> (case for_each_rule body xs of None \<Rightarrow> None | Some gs \<Rightarrow> Some (fs @ gs)))"

definition validateCircularCoRuns :: "nat \<Rightarrow> BusinessRule list \<Rightarrow> ValidationError list option" where
  "validateCircularCoRuns depth businessRules =
     (let coRunRules = filter (\<lambda>rule. rule_type rule = coRun) businessRules
      in for_each_rule (circular_rule depth coRunRules) coRunRules)"

subsection \<open>8. Co-run rules against phase windows\<close>

text \<open>
  \<open>taskPhaseWindows\<close> is a \<open>Map\<close>: an association list in insertion order, where
  \<open>set\<close> on a key already there replaces the value in place. The value is the task's
  \<open>PreferredPhases\<close> as it is (\<open>None\<close> when the property is absent), replaced by the
  allowed phases of the first phase-window rule for the task when there is one.
\<close>

definition window_step ::
  "BusinessRule list \<Rightarrow> TaskData list \<Rightarrow> (string \<times> int list option) list \<Rightarrow> string
     \<Rightarrow> (string \<times> int list option) list" where
  "window_step phaseWindowRules tasksData taskPhaseWindows taskId =
     (let m1 = (case find (\<lambda>t. TaskID t = Some taskId) tasksData of
                  Some task \<Rightarrow> AList.update taskId (PreferredPhases task) taskPhaseWindows
                | None \<Rightarrow> taskPhaseWindows)
      in case find (\<lambda>rule. p_taskId (parameters rule) = Some taskId) phaseWindowRules of
           Some phaseRule \<Rightarrow>
             AList.update taskId (Some (or_empty (p_allowedPhases (parameters phaseRule)))) m1
         | None \<Rightarrow> m1)"

text \<open>
  \<open>phaseArrays.reduce((common, phases) => common.filter((phase) => phases.includes(phase)))\<close>:
  \<open>common.filter\<close> throws when \<open>common\<close> is \<open>undefined\<close>, \<open>phases.includes\<close> throws
  when \<open>phases\<close> is \<open>undefined\<close> and \<open>common\<close> has an element to test.
\<close>

definition common_step :: "int list option \<Rightarrow> int list option \<Rightarrow> error + int list option" where
  "common_step common phases =
     (case common of
        None \<Rightarrow> Inl TypeError
      | Some c \<Rightarrow>
          (if c = [] then Inr (Some [])
           else (case phases of
                   None \<Rightarrow> Inl TypeError
                 | Some ps \<Rightarrow> Inr (Some (filter (\<lambda>phase. phase \<in> set ps) c)))))"

fun reduce_common :: "int list option \<Rightarrow> int list option list \<Rightarrow> error + int list option" where
  "reduce_common common [] = Inr common"
| "reduce_common common (phases # rest) =
     (case common_step common phases of Inl e \<Rightarrow> Inl e | Inr c \<Rightarrow> reduce_common c rest)"

definition conflict_finding :: "BusinessRule \<Rightarrow> string list \<Rightarrow> ValidationError" where
  "conflict_finding coRunRule coRunTasks =
     \<lparr> id_f = ''conflicting-phases-'' @ rule_id coRunRule,
       type_f = Error,
       entity = tasks_entity,
       entityId = Some (join_comma coRunTasks),
       field_f = None,
       message = ''Co-run tasks have no overlapping phase windows: '' @ join_comma coRunTasks,
       suggestion =
         Some ''Adjust phase windows to allow co-run tasks to execute in the same phases'' \<rparr>"

definition conflict_rule ::
  "BusinessRule list \<Rightarrow> TaskData list \<Rightarrow> BusinessRule \<Rightarrow> error + ValidationError list" where
  "conflict_rule phaseWindowRules tasksData coRunRule =
     (let coRunTasks = or_empty (p_tasks (parameters coRunRule));
          taskPhaseWindows = foldl (window_step phaseWindowRules tasksData) [] coRunTasks;
          phaseArrays = map snd taskPhaseWindows
      in if length phaseArrays > 1 then
           (case reduce_common (hd phaseArrays) (tl phaseArrays) of
              Inl e \<Rightarrow> Inl e
            | Inr None \<Rightarrow> Inl TypeError
            | Inr (Some commonPhases) \<Rightarrow>
                Inr (if length commonPhases = 0 then [conflict_finding coRunRule coRunTasks]
                     else []))
         else Inr [])"

definition validateRuleConflicts ::
  "BusinessRule list \<Rightarrow> TaskData list \<Rightarrow> error + ValidationError list" where
  "validateRuleConflicts businessRules tasksData =
     (let phaseWindowRules = filter (\<lambda>rule. rule_type rule = phaseWindow) businessRules;
          coRunRules = filter (\<lambda>rule. rule_type rule = coRun) businessRules
      in for_each (conflict_rule phaseWindowRules tasksData) coRunRules)"

subsection \<open>9. Overloaded workers\<close>

definition overload_worker :: "WorkerData \<Rightarrow> error + ValidationError list" where
  "overload_worker worker =
     (case AvailableSlots worker of
        None \<Rightarrow> Inl TypeError
      | Some slots \<Rightarrow>
          Inr (if js_lt (Some (int (length slots))) (MaxLoadPerPhase worker) then
            [\<lparr> id_f = ''worker-'' @ tmpl_str (WorkerID worker) @ ''-overloaded'',
               type_f = Warning,
               entity = workers,
               entityId = WorkerID worker,
               field_f = None,
               message = ''Worker has fewer available slots ('' @ tmpl_int (int (length slots))
                 @ '') than max load capacity ('' @ tmpl_num (MaxLoadPerPhase worker) @ '')'',
               suggestion =
                 Some ''Consider increasing available slots or reducing max load per phase'' \<rparr>]
          else []))"

definition validateWorkerOverload :: "WorkerData list \<Rightarrow> error + ValidationError list" where
  "validateWorkerOverload workersData = for_each overload_worker workersData"

subsection \<open>10. Phase-slot saturation\<close>

text \<open>
  \<open>phaseSlots\<close> and \<open>phaseRequirements\<close> are \<open>Map<number, number>\<close>: association
  lists in insertion order. A stored value is \<open>None\<close> when it is \<open>NaN\<close>, the sum with
  an absent \<open>MaxLoadPerPhase\<close> or \<open>Duration\<close>. \<open>m.get(phase) || 0\<close> is \<open>0\<close> for a
  phase not in the map and for a stored \<open>NaN\<close> or \<open>0\<close>.
\<close>

type_synonym phase_map = "(int \<times> int option) list"

definition get_or_zero :: "phase_map \<Rightarrow> int \<Rightarrow> int" where
  "get_or_zero m phase = (case map_of m phase of Some (Some v) \<Rightarrow> v | _ \<Rightarrow> 0)"

definition js_add :: "int \<Rightarrow> int option \<Rightarrow> int option" where
  "js_add a b = (case b of None \<Rightarrow> None | Some y \<Rightarrow> Some (a + y))"

definition add_to_phase :: "int option \<Rightarrow> phase_map \<Rightarrow> int \<Rightarrow> phase_map" where
  "add_to_phase amount m phase = AList.update phase (js_add (get_or_zero m phase) amount) m"

fun slots_loop :: "WorkerData list \<Rightarrow> phase_map \<Rightarrow> error + phase_map" where
  "slots_loop [] phaseSlots = Inr phaseSlots"
| "slots_loop (worker # rest) phaseSlots =
     (case AvailableSlots worker of
        None \<Rightarrow> Inl TypeError
      | Some slots \<Rightarrow>
          slots_loop rest (foldl (add_to_phase (MaxLoadPerPhase worker)) phaseSlots slots))"

fun requirements_loop :: "TaskData list \<Rightarrow> phase_map \<Rightarrow> error + phase_map" where
  "requirements_loop [] phaseRequirements = Inr phaseRequirements"
| "requirements_loop (task # rest) phaseRequirements =
     (case PreferredPhases task of
        None \<Rightarrow> Inl TypeError
      | Some preferred \<Rightarrow>
          (let phases = (if length preferred > 0 then preferred else [1])
           in requirements_loop rest
                (foldl (add_to_phase (Duration task)) phaseRequirements phases)))"

definition saturation_finding :: "int \<Rightarrow> int option \<Rightarrow> int \<Rightarrow> ValidationError" where
  "saturation_finding phase required available =
     \<lparr> id_f = ''phase-saturation-'' @ tmpl_int phase,
       type_f = Warning,
       entity = tasks_entity,
       entityId = Some (''Phase '' @ tmpl_int phase),
       field_f = None,
       message = ''Phase '' @ tmpl_int phase @ '' is oversaturated: requires '' @ tmpl_num required
         @ '' slots but only '' @ tmpl_int available @ '' available'',
       suggestion =
         Some ''Add more workers to this phase or redistribute tasks to other phases'' \<rparr>"

definition saturation_entry :: "phase_map \<Rightarrow> int \<times> int option \<Rightarrow> ValidationError list" where
  "saturation_entry phaseSlots entry =
     (case entry of (phase, required) \<Rightarrow>
        (let available = get_or_zero phaseSlots phase
         in if js_gt required (Some available) then [saturation_finding phase required available]
            else []))"

definition validatePhaseSlotSaturation ::
  "WorkerData list \<Rightarrow> TaskData list \<Rightarrow> error + ValidationError list" where
  "validatePhaseSlotSaturation workersData tasksData =
     (case slots_loop workersData [] of
        Inl e \<Rightarrow> Inl e
      | Inr phaseSlots \<Rightarrow>
          (case requirements_loop tasksData [] of
             Inl e \<Rightarrow> Inl e
           | Inr phaseRequirements \<Rightarrow>
               Inr (concat (map (saturation_entry phaseSlots) phaseRequirements))))"

subsection \<open>11. Skill coverage\<close>

fun skills_loop :: "WorkerData list \<Rightarrow> string set \<Rightarrow> error + string set" where
  "skills_loop [] availableSkills = Inr availableSkills"
| "skills_loop (worker # rest) availableSkills =
     (case Skills worker of
        None \<Rightarrow> Inl TypeError
      | Some skills \<Rightarrow> skills_loop rest (availableSkills \<union> set skills))"

definition missing_skill_finding :: "TaskData \<Rightarrow> string \<Rightarrow> ValidationError" where
  \<open>missing_skill_finding task skill =
     \<lparr> id_f = ''task-'' @ tmpl_str (TaskID task) @ ''-missing-skill-'' @ skill,
       type_f = Warning,
       entity = tasks_entity,
       entityId = TaskID task,
       field_f = Some ''RequiredSkills'',
       message = ''No worker has the required skill "'' @ skill @ ''"'',
       suggestion =
         Some ''Add a worker with this skill or remove it from task requirements'' \<rparr>\<close>

definition coverage_task :: "string set \<Rightarrow> TaskData \<Rightarrow> error + ValidationError list" where
  "coverage_task availableSkills task =
     (case RequiredSkills task of
        None \<Rightarrow> Inl TypeError
      | Some required \<Rightarrow>
          Inr (map (missing_skill_finding task)
                 (filter (\<lambda>skill. skill \<notin> availableSkills) required)))"

definition validateSkillCoverage ::
  "WorkerData list \<Rightarrow> TaskData list \<Rightarrow> error + ValidationError list" where
  "validateSkillCoverage workersData tasksData =
     (case skills_loop workersData {} of
        Inl e \<Rightarrow> Inl e
      | Inr availableSkills \<Rightarrow> for_each (coverage_task availableSkills) tasksData)"

subsection \<open>12. Max-concurrency feasibility\<close>

text \<open>\<open>xs.filter(p)\<close> with a callback that may throw.\<close>

fun filter_throwing :: "('a \<Rightarrow> error + bool) \<Rightarrow> 'a list \<Rightarrow> error + 'a list" where
  "filter_throwing p [] = Inr []"
| "filter_throwing p (x # xs) =
     (case p x of
        Inl e \<Rightarrow> Inl e
      | Inr b \<Rightarrow>
          (case filter_throwing p xs of
             Inl e \<Rightarrow> Inl e
           | Inr ys \<Rightarrow> Inr (if b then x # ys else ys)))"

text \<open>
  \<open>task.RequiredSkills.every((skill) => worker.Skills.includes(skill))\<close>: throws on an
  absent \<open>RequiredSkills\<close>; reads \<open>worker.Skills\<close> only when there is a skill to test.
\<close>

definition is_qualified :: "TaskData \<Rightarrow> WorkerData \<Rightarrow> error + bool" where
  "is_qualified task worker =
     (case RequiredSkills task of
        None \<Rightarrow> Inl TypeError
      | Some required \<Rightarrow>
          (if required = [] then Inr True
           else (case Skills worker of
                   None \<Rightarrow> Inl TypeError
                 | Some skills \<Rightarrow> Inr (list_all (\<lambda>skill. skill \<in> set skills) required))))"

text \<open>\<open>worker.AvailableSlots.some((slot) => task.PreferredPhases.includes(slot))\<close>.\<close>

definition is_available :: "int list \<Rightarrow> WorkerData \<Rightarrow> error + bool" where
  "is_available preferred worker =
     (case AvailableSlots worker of
        None \<Rightarrow> Inl TypeError
      | Some slots \<Rightarrow> Inr (list_ex (\<lambda>slot. slot \<in> set preferred) slots))"

definition concurrency_finding :: "TaskData \<Rightarrow> nat \<Rightarrow> ValidationError" where
  "concurrency_finding task qualified =
     \<lparr> id_f = ''task-'' @ tmpl_str (TaskID task) @ ''-infeasible-concurrency'',
       type_f = Warning,
       entity = tasks_entity,
       entityId = TaskID task,
       field_f = Some ''MaxConcurrent'',
       message = ''Max concurrent ('' @ tmpl_num (MaxConcurrent task)
         @ '') exceeds qualified workers ('' @ tmpl_int (int qualified) @ '')'',
       suggestion = Some ''Reduce max concurrent value or add more qualified workers'' \<rparr>"

definition phase_concurrency_finding :: "TaskData \<Rightarrow> nat \<Rightarrow> ValidationError" where
  "phase_concurrency_finding task available =
     \<lparr> id_f = ''task-'' @ tmpl_str (TaskID task) @ ''-infeasible-phase-concurrency'',
       type_f = Warning,
       entity = tasks_entity,
       entityId = TaskID task,
       field_f = None,
       message = ''Max concurrent ('' @ tmpl_num (MaxConcurrent task)
         @ '') exceeds available qualified workers ('' @ tmpl_int (int available)
         @ '') in preferred phases'',
       suggestion =
         Some ''Adjust preferred phases, reduce max concurrent, or add more qualified workers'' \<rparr>"

definition concurrency_task :: "WorkerData list \<Rightarrow> TaskData \<Rightarrow> error + ValidationError list" where
  "concurrency_task workersData task =
     (case filter_throwing (is_qualified task) workersData of
        Inl e \<Rightarrow> Inl e
      | Inr qualifiedWorkers \<Rightarrow>
          and_then
            (Inr (if js_gt (MaxConcurrent task) (Some (int (length qualifiedWorkers)))
                  then [concurrency_finding task (length qualifiedWorkers)] else []))
            (case PreferredPhases task of
               None \<Rightarrow> Inl TypeError
             | Some preferred \<Rightarrow>
                 (if length preferred > 0 then
                    (case filter_throwing (is_available preferred) qualifiedWorkers of
                       Inl e \<Rightarrow> Inl e
                     | Inr availableWorkers \<Rightarrow>
                         Inr (if js_gt (MaxConcurrent task) (Some (int (length availableWorkers)))
                              then [phase_concurrency_finding task (length availableWorkers)]
                              else []))
                  else Inr [])))"

definition validateMaxConcurrencyFeasibility ::
  "WorkerData list \<Rightarrow> TaskData list \<Rightarrow> error + ValidationError list" where
  "validateMaxConcurrencyFeasibility workersData tasksData =
     for_each (concurrency_task workersData) tasksData"

subsection \<open>The orchestrator\<close>

text \<open>
  \<open>runValidations\<close> runs the twelve checks in order on one shared \<open>errors\<close> array and
  returns it. An exception in a check rejects the promise: the result is the exception.
  The result is \<open>None\<close> when the cycle traversal is cut off at the given depth.
\<close>

definition runValidations ::
  "nat \<Rightarrow> (string \<Rightarrow> bool) \<Rightarrow> ClientData list \<Rightarrow> WorkerData list \<Rightarrow> TaskData list
     \<Rightarrow> BusinessRule list \<Rightarrow> (error + ValidationError list) option" where
  "runValidations depth json_parses clientsData workersData tasksData businessRules =
     (case and_then (Inr (validateRequiredFields clientsData workersData tasksData))
          (and_then (Inr (validateDuplicateIds clientsData workersData tasksData))
          (and_then (validateMalformedLists clientsData workersData tasksData)
          (and_then (validateRangeValues clientsData workersData tasksData)
          (and_then (Inr (validateJSONFields json_parses clientsData))
                    (validateReferences clientsData workersData tasksData))))) of
        Inl e \<Rightarrow> Some (Inl e)
      | Inr errors \<Rightarrow>
          (case validateCircularCoRuns depth businessRules of
             None \<Rightarrow> None
           | Some circular \<Rightarrow>
               Some
                 (and_then (Inr (errors @ circular))
                 (and_then (validateRuleConflicts businessRules tasksData)
                 (and_then (validateWorkerOverload workersData)
                 (and_then (validatePhaseSlotSaturation workersData tasksData)
                 (and_then (validateSkillCoverage workersData tasksData)
                           (validateMaxConcurrencyFeasibility workersData tasksData))))))))"

section \<open>Auxiliary notions for the statements and proofs\<close>

text \<open>
  The occurrences of a list that come after an equal element: what
  \<open>filter((id, index) => ids.indexOf(id) !== index)\<close> computes, by recursion.
\<close>

fun dups_from :: "'a list \<Rightarrow> 'a list \<Rightarrow> 'a list" where
  "dups_from seen [] = []"
| "dups_from seen (x # xs) = (if x \<in> set seen then [x] else []) @ dups_from (seen @ [x]) xs"

text \<open>Sample records for the concrete instances below.\<close>

definition sample_client :: "string \<Rightarrow> string list \<Rightarrow> ClientData" where
  "sample_client cid requested =
     \<lparr> ClientID = Some cid, ClientName = Some ''Client'', PriorityLevel = Some 1,
       RequestedTaskIDs = Some requested, GroupTag = Some ''default'',
       AttributesJSON = Some AttrObject \<rparr>"

definition sample_worker :: "string \<Rightarrow> string list \<Rightarrow> int list \<Rightarrow> int \<Rightarrow> WorkerData" where
  "sample_worker wid skills slots load =
     \<lparr> WorkerID = Some wid, WorkerName = Some ''Worker'', Skills = Some skills,
       AvailableSlots = Some slots, MaxLoadPerPhase = Some load,
       WorkerGroup = Some ''default'', QualificationLevel = Some 1 \<rparr>"

definition sample_task :: "string \<Rightarrow> int \<Rightarrow> string list \<Rightarrow> int list \<Rightarrow> int \<Rightarrow> TaskData" where
  "sample_task tid duration skills phases concurrent =
     \<lparr> TaskID = Some tid, TaskName = Some ''Task'', Category = Some ''general'',
       Duration = Some duration, RequiredSkills = Some skills, PreferredPhases = Some phases,
       MaxConcurrent = Some concurrent \<rparr>"

definition coRun_rule :: "string \<Rightarrow> string list \<Rightarrow> BusinessRule" where
  "coRun_rule rid ts =
     \<lparr> rule_id = rid, rule_type = coRun, rule_name = rid, description = [],
       parameters = \<lparr> p_tasks = Some ts, p_taskId = None, p_allowedPhases = None \<rparr>,
       active = True \<rparr>"

definition phaseWindow_rule :: "string \<Rightarrow> string \<Rightarrow> int list \<Rightarrow> BusinessRule" where
  "phaseWindow_rule rid tid phases =
     \<lparr> rule_id = rid, rule_type = phaseWindow, rule_name = rid, description = [],
       parameters = \<lparr> p_tasks = None, p_taskId = Some tid, p_allowedPhases = Some phases \<rparr>,
       active = True \<rparr>"

text \<open>
  A finding of the reference check names the requested task id in its message; the
  number of times the clients request an id.
\<close>

definition references_task :: "string \<Rightarrow> ValidationError \<Rightarrow> bool" where
  \<open>references_task x f = (message f = ''Requested task "'' @ x @ ''" does not exist'')\<close>

definition request_count :: "ClientData list \<Rightarrow> string \<Rightarrow> nat" where
  "request_count clientsData x =
     sum_list (map (\<lambda>client. count_list (or_empty (RequestedTaskIDs client)) x) clientsData)"

text \<open>
  The workers qualified for a task (their skills include every required skill), those of
  them with a slot among the task's preferred phases, and the warnings of the
  concurrency check for one task, written from these.
\<close>

definition qualified_workers :: "TaskData \<Rightarrow> WorkerData list \<Rightarrow> WorkerData list" where
  "qualified_workers task workersData =
     filter (\<lambda>worker. set (or_empty (RequiredSkills task)) \<subseteq> set (or_empty (Skills worker)))
       workersData"

definition phase_available_workers :: "TaskData \<Rightarrow> WorkerData list \<Rightarrow> WorkerData list" where
  "phase_available_workers task workersData =
     filter (\<lambda>worker. set (or_empty (AvailableSlots worker)) \<inter> set (or_empty (PreferredPhases task)) \<noteq> {})
       (qualified_workers task workersData)"

definition lists_present :: "WorkerData list \<Rightarrow> TaskData \<Rightarrow> bool" where
  "lists_present workersData task =
     (RequiredSkills task \<noteq> None \<and> PreferredPhases task \<noteq> None
      \<and> list_all (\<lambda>worker. Skills worker \<noteq> None \<and> AvailableSlots worker \<noteq> None) workersData)"

definition exceeds :: "int option \<Rightarrow> nat \<Rightarrow> bool" where
  "exceeds maxConcurrent n = (case maxConcurrent of None \<Rightarrow> False | Some m \<Rightarrow> int n < m)"

definition concurrency_warnings :: "WorkerData list \<Rightarrow> TaskData \<Rightarrow> ValidationError list" where
  "concurrency_warnings workersData task =
     (let q = length (qualified_workers task workersData);
          a = length (phase_available_workers task workersData)
      in (if exceeds (MaxConcurrent task) q then [concurrency_finding task q] else [])
         @ (if PreferredPhases task \<noteq> Some [] \<and> exceeds (MaxConcurrent task) a
            then [phase_concurrency_finding task a] else []))"

text \<open>
  Capacity per phase as the engine adds it up: a worker's \<open>MaxLoadPerPhase\<close> once for
  every occurrence of the phase in its \<open>AvailableSlots\<close>, a task's \<open>Duration\<close> once for
  every occurrence of the phase in its preferred phases (phase 1 when it has none). A
  phase is demanded when some task is attributed to it.
\<close>

definition phases_of :: "TaskData \<Rightarrow> int list" where
  "phases_of task = (case PreferredPhases task of None \<Rightarrow> [] | Some ps \<Rightarrow> if ps = [] then [1] else ps)"

definition load_of :: "WorkerData \<Rightarrow> int" where
  "load_of worker = (case MaxLoadPerPhase worker of None \<Rightarrow> 0 | Some l \<Rightarrow> l)"

definition duration_of :: "TaskData \<Rightarrow> int" where
  "duration_of task = (case Duration task of None \<Rightarrow> 0 | Some d \<Rightarrow> d)"

definition available_capacity :: "WorkerData list \<Rightarrow> int \<Rightarrow> int" where
  "available_capacity workersData p =
     sum_list (map (\<lambda>worker. int (count_list (or_empty (AvailableSlots worker)) p) * load_of worker)
       workersData)"

definition required_capacity :: "TaskData list \<Rightarrow> int \<Rightarrow> int" where
  "required_capacity tasksData p =
     sum_list (map (\<lambda>task. int (count_list (phases_of task) p) * duration_of task) tasksData)"

definition demanded :: "TaskData list \<Rightarrow> int \<Rightarrow> bool" where
  "demanded tasksData p = list_ex (\<lambda>task. p \<in> set (phases_of task)) tasksData"

definition capacity_fields_present :: "WorkerData list \<Rightarrow> TaskData list \<Rightarrow> bool" where
  "capacity_fields_present workersData tasksData =
     (list_all (\<lambda>worker. AvailableSlots worker \<noteq> None \<and> MaxLoadPerPhase worker \<noteq> None) workersData
      \<and> list_all (\<lambda>task. PreferredPhases task \<noteq> None \<and> Duration task \<noteq> None) tasksData)"

text \<open>
  The totals as the claim words them: the loads of the workers whose slots contain the
  phase, the durations of the tasks whose phases contain it.
\<close>

definition claimed_available :: "WorkerData list \<Rightarrow> int \<Rightarrow> int" where
  "claimed_available workersData p =
     sum_list (map load_of
       (filter (\<lambda>worker. p \<in> set (or_empty (AvailableSlots worker))) workersData))"

definition claimed_required :: "TaskData list \<Rightarrow> int \<Rightarrow> int" where
  "claimed_required tasksData p =
     sum_list (map duration_of (filter (\<lambda>task. p \<in> set (phases_of task)) tasksData))"

text \<open>
  The engine's numbers are IEEE doubles; the sums above are those of the integers. The
  two agree while every number involved stays below \<open>2 ^ 53\<close> in magnitude: the phase
  numbers, and for every listed phase the total of the magnitudes of the loads and of the
  durations added up for it, which bounds every intermediate sum of the two loops.
\<close>

definition safe_magnitude :: "int \<Rightarrow> bool" where
  "safe_magnitude x = (\<bar>x\<bar> < 2 ^ 53)"

definition offered_magnitude :: "WorkerData list \<Rightarrow> int \<Rightarrow> int" where
  "offered_magnitude workersData p =
     sum_list (map (\<lambda>worker. int (count_list (or_empty (AvailableSlots worker)) p) * \<bar>load_of worker\<bar>)
       workersData)"

definition required_magnitude :: "TaskData list \<Rightarrow> int \<Rightarrow> int" where
  "required_magnitude tasksData p =
     sum_list (map (\<lambda>task. int (count_list (phases_of task) p) * \<bar>duration_of task\<bar>) tasksData)"

definition listed_phases :: "WorkerData list \<Rightarrow> TaskData list \<Rightarrow> int list" where
  "listed_phases workersData tasksData =
     concat (map (\<lambda>worker. or_empty (AvailableSlots worker)) workersData)
       @ concat (map phases_of tasksData)"

definition totals_in_safe_range :: "WorkerData list \<Rightarrow> TaskData list \<Rightarrow> bool" where
  "totals_in_safe_range workersData tasksData =
     list_all (\<lambda>p. safe_magnitude p
                 \<and> offered_magnitude workersData p < 2 ^ 53
                 \<and> required_magnitude tasksData p < 2 ^ 53)
       (listed_phases workersData tasksData)"

text \<open>An invariant of the two maps: distinct keys, no \<open>NaN\<close> stored.\<close>

definition wf_map :: "phase_map \<Rightarrow> bool" where
  "wf_map m = (distinct (map fst m) \<and> list_all (\<lambda>entry. snd entry \<noteq> None) m)"

text \<open>The id of the saturation finding of a phase.\<close>

definition saturation_id :: "int \<Rightarrow> string" where
  "saturation_id p = ''phase-saturation-'' @ tmpl_int p"







text \<open>
  All the task ids listed by a list of rules; the co-run rules of a rule set; the task
  list of a rule.
\<close>

definition co_run_tasks :: "BusinessRule list \<Rightarrow> string list" where
  "co_run_tasks coRunRules = concat (map (\<lambda>r. or_empty (p_tasks (parameters r))) coRunRules)"

definition coRunRules_of :: "BusinessRule list \<Rightarrow> BusinessRule list" where
  "coRunRules_of businessRules = filter (\<lambda>rule. rule_type rule = coRun) businessRules"

definition rule_tasks :: "BusinessRule \<Rightarrow> string list" where
  "rule_tasks r = or_empty (p_tasks (parameters r))"

text \<open>
  A task of the rule being scanned has a neighbour when another co-run rule (one with a
  different id) contains it together with a different task. The findings expected for
  one rule: a finding at its first task with a neighbour.
\<close>

definition has_neighbour :: "BusinessRule list \<Rightarrow> BusinessRule \<Rightarrow> string \<Rightarrow> bool" where
  "has_neighbour coRunRules rule taskId =
     list_ex (\<lambda>relatedTask. relatedTask \<noteq> taskId) (relatedTasks coRunRules rule taskId)"

definition cycle_expected :: "BusinessRule list \<Rightarrow> BusinessRule \<Rightarrow> ValidationError list" where
  "cycle_expected coRunRules rule =
     (case find (has_neighbour coRunRules rule) (rule_tasks rule) of
        None \<Rightarrow> []
      | Some taskId \<Rightarrow> [circular_finding rule taskId])"

text \<open>
  A cross-rule cycle: at least two rules of the set, told apart by their ids, and as
  many distinct tasks, the \<open>i\<close>-th task belonging to the \<open>i\<close>-th rule and to the next
  one, the last rule being followed by the first. No shared task: two rules with
  different ids have no task in common.
\<close>

definition cross_rule_cycle :: "BusinessRule list \<Rightarrow> BusinessRule list \<Rightarrow> string list \<Rightarrow> bool" where
  "cross_rule_cycle coRunRules rs ts =
     (2 \<le> length rs \<and> length ts = length rs \<and> list_all (\<lambda>r. r \<in> set coRunRules) rs
      \<and> distinct (map rule_id rs) \<and> distinct ts
      \<and> list_all (\<lambda>i. ts ! i \<in> set (rule_tasks (rs ! i))
                      \<and> ts ! i \<in> set (rule_tasks (rs ! (Suc i mod length rs))))
            [0 ..< length rs])"

definition no_shared_task :: "BusinessRule list \<Rightarrow> bool" where
  "no_shared_task coRunRules =
     list_all (\<lambda>r1. list_all (\<lambda>r2. rule_id r1 = rule_id r2
                  \<or> set (rule_tasks r1) \<inter> set (rule_tasks r2) = {}) coRunRules) coRunRules"

text \<open>
  A rule with its \<open>active\<close> flag cleared, and two rule lists that are the same but for
  the \<open>active\<close> flags of their rules.
\<close>

definition erase_active :: "BusinessRule \<Rightarrow> BusinessRule" where
  "erase_active r = r\<lparr>active := False\<rparr>"

definition differ_in_active_only :: "BusinessRule list \<Rightarrow> BusinessRule list \<Rightarrow> bool" where
  "differ_in_active_only rs rs' = list_all2 (\<lambda>r r'. r' = r\<lparr>active := active r'\<rparr>) rs rs'"

text \<open>
  The records carry their list-typed properties: the requested task ids of the clients,
  the skills and slots of the workers, the required skills and preferred phases of the
  tasks.
\<close>

definition lists_all_present :: "ClientData list \<Rightarrow> WorkerData list \<Rightarrow> TaskData list \<Rightarrow> bool" where
  "lists_all_present clientsData workersData tasksData =
     (list_all (\<lambda>client. RequestedTaskIDs client \<noteq> None) clientsData
      \<and> list_all (\<lambda>worker. Skills worker \<noteq> None \<and> AvailableSlots worker \<noteq> None) workersData
      \<and> list_all (\<lambda>task. RequiredSkills task \<noteq> None \<and> PreferredPhases task \<noteq> None) tasksData)"

text \<open>Records with empty lists and every other property missing.\<close>

definition bare_client :: ClientData where
  "bare_client =
     \<lparr> ClientID = None, ClientName = None, PriorityLevel = None, RequestedTaskIDs = Some [],
       GroupTag = None, AttributesJSON = None \<rparr>"

definition bare_worker :: WorkerData where
  "bare_worker =
     \<lparr> WorkerID = None, WorkerName = None, Skills = Some [], AvailableSlots = Some [],
       MaxLoadPerPhase = None, WorkerGroup = None, QualificationLevel = None \<rparr>"

definition bare_task :: TaskData where
  "bare_task =
     \<lparr> TaskID = None, TaskName = None, Category = None, Duration = None,
       RequiredSkills = Some [], PreferredPhases = Some [], MaxConcurrent = None \<rparr>"

text \<open>No value of a map is \<open>undefined\<close>.\<close>

definition values_present :: "('k \<times> 'v option) list \<Rightarrow> bool" where
  "values_present m = list_all (\<lambda>e. snd e \<noteq> None) m"

section \<open>Properties of the engine\<close>

subsection \<open>Duplicate IDs\<close>

lemma indexOf_minus1: "(indexOf ys x = -1) = (x \<notin> set ys)" and indexOf_ge: "-1 \<le> indexOf ys x"
  by (induction ys) (auto simp: Let_def)

lemma indexOf_first: "(indexOf (pre @ x # xs) x = int (length pre)) = (x \<notin> set pre)"
proof (induction pre)
  case Nil
  then show ?case by simp
next
  case (Cons y pre)
  have "indexOf (pre @ x # xs) x \<noteq> -1" by (simp add: indexOf_minus1)
  with Cons show ?case by (auto simp: Let_def)
qed

lemma filter_index_dups_from:
  "map fst (filter (\<lambda>(x, i). indexOf (pre @ xs) x \<noteq> int i) (zip xs [length pre ..< length pre + length xs]))
     = dups_from pre xs"
proof (induction xs arbitrary: pre)
  case Nil
  then show ?case by simp
next
  case (Cons x xs)
  have up: "[length pre ..< length pre + length (x # xs)] = length pre # [length (pre @ [x]) ..< length (pre @ [x]) + length xs]"
    using upt_conv_Cons[of "length pre" "length pre + length (x # xs)"] by simp
  from Cons[of "pre @ [x]"] show ?case
    unfolding up by (simp add: indexOf_first)
qed

lemma one_le_count: "(Suc 0 \<le> count_list xs x) = (x \<in> set xs)"
  using count_list_0_iff[of xs x] by auto

lemma two_le_count: "2 \<le> count_list xs x \<Longrightarrow> x \<in> set xs"
  using count_list_0_iff[of xs x] by auto

lemma count_list_distinct: "distinct xs \<Longrightarrow> count_list xs x = (if x \<in> set xs then 1 else 0)"
  by (induction xs) auto

lemma set_dups_from:
  "set (dups_from seen xs) = {x \<in> set xs. x \<in> set seen \<or> 2 \<le> count_list xs x}"
proof (induction xs arbitrary: seen)
  case Nil
  then show ?case by simp
next
  case (Cons a xs)
  show ?case using Cons[of "seen @ [a]"] by (auto simp: one_le_count)
qed

lemma set_insert_all_props:
  "distinct seen \<Longrightarrow> distinct (set_insert_all seen xs) \<and> set (set_insert_all seen xs) = set seen \<union> set xs"
  by (induction xs arbitrary: seen) auto

lemma new_Set_props: "distinct (new_Set xs)" "set (new_Set xs) = set xs"
  using set_insert_all_props[of "[]" xs] by (simp_all add: new_Set_def)

lemma set_duplicate_ids: "set (duplicate_ids ids) = {x. 2 \<le> count_list ids x}"
proof -
  have "filter_index (\<lambda>x index. indexOf ids x \<noteq> index) ids = dups_from [] ids"
    using filter_index_dups_from[of "[]" ids] by (simp add: filter_index_def)
  then show ?thesis
    by (auto simp: duplicate_ids_def new_Set_props set_dups_from dest: two_le_count)
qed

lemma count_duplicate_ids: "count_list (duplicate_ids ids) k = (if 2 \<le> count_list ids k then 1 else 0)"
proof -
  have d: "distinct (duplicate_ids ids)" by (simp add: duplicate_ids_def new_Set_props)
  show ?thesis
  proof (cases "2 \<le> count_list ids k")
    case True
    then have "k \<in> set (duplicate_ids ids)" by (simp add: set_duplicate_ids)
    with d have "count_list (duplicate_ids ids) k = 1" by (simp add: count_list_distinct)
    with True show ?thesis by simp
  next
    case False
    then have "k \<notin> set (duplicate_ids ids)" by (simp add: set_duplicate_ids)
    with False show ?thesis by (simp add: count_list_0_iff)
  qed
qed

lemma count_truthy_ids:
  "count_list (truthy_ids ks) k = (if k = [] then 0 else count_list ks (Some k))"
  by (induction ks) (auto simp: truthy_ids_def truthy_str_def or_str_def split: option.splits)

lemma count_list_map_field: "count_list (map f xs) v = length (filter (\<lambda>x. f x = v) xs)"
  by (induction xs) auto

lemma length_filter_duplicate_finding:
  "length (filter ((\<lambda>f. entity f = e \<and> entityId f = Some k) \<circ> duplicate_finding kind Kind e') ys)
     = (if e = e' then count_list ys k else 0)"
  by (induction ys) (auto simp: duplicate_finding_def)

lemma truthy_ids_nonempty: "x \<in> set (truthy_ids ks) \<Longrightarrow> x \<noteq> []"
  by (auto simp: truthy_ids_def truthy_str_def or_str_def split: option.splits)

lemma duplicate_ids_nonempty: "x \<in> set (duplicate_ids (truthy_ids ks)) \<Longrightarrow> x \<noteq> []"
  using truthy_ids_nonempty[of x ks] two_le_count[of "truthy_ids ks" x]
  by (simp add: set_duplicate_ids)

text \<open>
  C6. For each collection and every key \<open>k\<close>, the duplicate check produces exactly one
  finding of that collection with entity id \<open>k\<close> when \<open>k\<close> is not empty and at least
  two records carry it, whatever their number, and none otherwise. Every finding of the
  check is an error that carries a key that is not empty: a record whose key is unset
  or empty gives no duplicate finding.
\<close>

theorem duplicate_key_collapsing:
  "length (filter (\<lambda>f. entity f = clients \<and> entityId f = Some k)
       (validateDuplicateIds clientsData workersData tasksData))
     = (if k \<noteq> [] \<and> 2 \<le> length (filter (\<lambda>c. ClientID c = Some k) clientsData) then 1 else 0)
   \<and> length (filter (\<lambda>f. entity f = workers \<and> entityId f = Some k)
       (validateDuplicateIds clientsData workersData tasksData))
     = (if k \<noteq> [] \<and> 2 \<le> length (filter (\<lambda>w. WorkerID w = Some k) workersData) then 1 else 0)
   \<and> length (filter (\<lambda>f. entity f = tasks_entity \<and> entityId f = Some k)
       (validateDuplicateIds clientsData workersData tasksData))
     = (if k \<noteq> [] \<and> 2 \<le> length (filter (\<lambda>t. TaskID t = Some k) tasksData) then 1 else 0)
   \<and> (\<forall>f \<in> set (validateDuplicateIds clientsData workersData tasksData).
         type_f f = Error \<and> (\<exists>key. key \<noteq> [] \<and> entityId f = Some key))"
proof -
  have counts: "length (filter (\<lambda>f. entity f = clients \<and> entityId f = Some k)
       (validateDuplicateIds clientsData workersData tasksData))
     = (if k \<noteq> [] \<and> 2 \<le> length (filter (\<lambda>c. ClientID c = Some k) clientsData) then 1 else 0)
   \<and> length (filter (\<lambda>f. entity f = workers \<and> entityId f = Some k)
       (validateDuplicateIds clientsData workersData tasksData))
     = (if k \<noteq> [] \<and> 2 \<le> length (filter (\<lambda>w. WorkerID w = Some k) workersData) then 1 else 0)
   \<and> length (filter (\<lambda>f. entity f = tasks_entity \<and> entityId f = Some k)
       (validateDuplicateIds clientsData workersData tasksData))
     = (if k \<noteq> [] \<and> 2 \<le> length (filter (\<lambda>t. TaskID t = Some k) tasksData) then 1 else 0)"
    by (simp add: validateDuplicateIds_def length_filter_duplicate_finding count_duplicate_ids
        count_truthy_ids count_list_map_field)
  have keys: "type_f f = Error \<and> (\<exists>key. key \<noteq> [] \<and> entityId f = Some key)"
    if "f \<in> set (validateDuplicateIds clientsData workersData tasksData)" for f
    using that
    by (auto simp: validateDuplicateIds_def duplicate_finding_def dest: duplicate_ids_nonempty)
  from counts keys show ?thesis by blast
qed

theorem duplicate_key_collapsing_witness:
  "length (filter (\<lambda>f. entity f = clients \<and> entityId f = Some ''C1'')
     (validateDuplicateIds
        [sample_client ''C1'' [], sample_client ''C2'' [], sample_client ''C1'' [],
         sample_client ''C1'' [], sample_client [] [], sample_client [] []] [] [])) = 1
   \<and> filter (\<lambda>f. entity f = clients \<and> entityId f = Some [])
     (validateDuplicateIds
        [sample_client ''C1'' [], sample_client ''C2'' [], sample_client ''C1'' [],
         sample_client ''C1'' [], sample_client [] [], sample_client [] []] [] []) = []"
  using duplicate_key_collapsing [of "''C1''"
      "[sample_client ''C1'' [], sample_client ''C2'' [], sample_client ''C1'' [],
        sample_client ''C1'' [], sample_client [] [], sample_client [] []]" "[]" "[]"]
    duplicate_key_collapsing [of "[]"
      "[sample_client ''C1'' [], sample_client ''C2'' [], sample_client ''C1'' [],
        sample_client ''C1'' [], sample_client [] [], sample_client [] []]" "[]" "[]"]
  by (simp add: sample_client_def)

subsection \<open>Unknown references\<close>

lemma for_each_Inr:
  "(\<And>x. x \<in> set xs \<Longrightarrow> body x = Inr (g x)) \<Longrightarrow> for_each body xs = Inr (concat (map g xs))"
  by (induction xs) auto

lemma for_each_Inl:
  "x \<in> set xs \<Longrightarrow> body x = Inl e \<Longrightarrow> \<exists>e'. for_each body xs = Inl e'"
  by (induction xs) (auto split: sum.splits)

lemma length_filter_concat:
  "length (filter P (concat xss)) = sum_list (map (\<lambda>xs. length (filter P xs)) xss)"
  by (induction xss) auto

lemma references_unknown_task [simp]:
  "references_task x (unknown_task_finding client y) = (y = x)"
  by (simp add: references_task_def unknown_task_finding_def)

lemma count_references_client:
  "length (filter (references_task x) (map (unknown_task_finding client) (filter (\<lambda>y. Some y \<notin> S) requested)))
     = (if Some x \<in> S then 0 else count_list requested x)"
  by (induction requested) auto

text \<open>
  C7 (as amended). When every client has its list of requested task ids, the reference
  check returns, for every client and every entry of its list that no task carries as
  its id (equality of strings), one error finding naming that entry, and nothing else.
  So the number of findings that reference an id is the number of times the clients
  request it when no task has that id (one when it is requested once), and zero when a
  task has it.
\<close>

theorem reference_findings_per_request:
  assumes "\<forall>client \<in> set clientsData. RequestedTaskIDs client \<noteq> None"
  shows "\<exists>fs. validateReferences clientsData workersData tasksData = Inr fs
           \<and> fs = concat (map (\<lambda>client. map (unknown_task_finding client)
                    (filter (\<lambda>y. Some y \<notin> set (map TaskID tasksData))
                       (or_empty (RequestedTaskIDs client)))) clientsData)
           \<and> (\<forall>x. length (filter (references_task x) fs)
                 = (if Some x \<in> set (map TaskID tasksData) then 0
                    else request_count clientsData x))"
proof -
  let ?S = "set (map TaskID tasksData)"
  let ?g = "\<lambda>client. map (unknown_task_finding client)
              (filter (\<lambda>y. Some y \<notin> ?S) (or_empty (RequestedTaskIDs client)))"
  have body: "references_client (new_Set (map TaskID tasksData)) client = Inr (?g client)"
    if "client \<in> set clientsData" for client
    using that assms by (auto simp: references_client_def new_Set_props or_empty_def)
  have run: "validateReferences clientsData workersData tasksData = Inr (concat (map ?g clientsData))"
    unfolding validateReferences_def Let_def by (rule for_each_Inr) (rule body)
  have cnt: "length (filter (references_task x) (concat (map ?g clientsData)))
      = (if Some x \<in> ?S then 0 else request_count clientsData x)" for x
    by (simp add: length_filter_concat comp_def count_references_client request_count_def
        del: length_filter_map set_map)
  from run cnt show ?thesis by blast
qed

theorem reference_findings_per_request_witness:
  "\<exists>fs. validateReferences
           [sample_client ''C1'' [''T1'', ''T9''], sample_client ''C2'' [''T8'']] []
           [sample_task ''T1'' 1 [] [] 1] = Inr fs
       \<and> length (filter (references_task ''T9'') fs) = 1
       \<and> length (filter (references_task ''T8'') fs) = 1
       \<and> length (filter (references_task ''T1'') fs) = 0"
  using reference_findings_per_request [of
      "[sample_client ''C1'' [''T1'', ''T9''], sample_client ''C2'' [''T8'']]"
      "[]" "[sample_task ''T1'' 1 [] [] 1]"]
  by (simp add: sample_client_def sample_task_def request_count_def or_empty_def)

text \<open>
  The claim as stated fails where an absent id is requested more than once: two
  clients that both request the absent \<open>T9\<close> get one finding each, so two findings
  reference \<open>T9\<close>, not exactly one.
\<close>

theorem reference_exactly_one_counterexample:
  "validateReferences [sample_client ''C1'' [''T9''], sample_client ''C2'' [''T9'']] [] []
     = Inr [unknown_task_finding (sample_client ''C1'' [''T9'']) ''T9'',
            unknown_task_finding (sample_client ''C2'' [''T9'']) ''T9'']
   \<and> length (filter (references_task ''T9'')
        [unknown_task_finding (sample_client ''C1'' [''T9'']) ''T9'',
         unknown_task_finding (sample_client ''C2'' [''T9'']) ''T9'']) = 2"
  by (simp add: validateReferences_def new_Set_def references_client_def sample_client_def)

subsection \<open>Max-concurrency feasibility\<close>

lemma filter_throwing_Inr:
  "(\<And>x. x \<in> set xs \<Longrightarrow> p x = Inr (q x)) \<Longrightarrow> filter_throwing p xs = Inr (filter q xs)"
  by (induction xs) auto

lemma qualified_filter:
  assumes "lists_present workersData task"
  shows "filter_throwing (is_qualified task) workersData = Inr (qualified_workers task workersData)"
  unfolding qualified_workers_def
proof (rule filter_throwing_Inr)
  fix worker assume "worker \<in> set workersData"
  with assms obtain req sk where "RequiredSkills task = Some req" "Skills worker = Some sk"
    by (auto simp: lists_present_def list_all_iff)
  then show "is_qualified task worker
      = Inr (set (or_empty (RequiredSkills task)) \<subseteq> set (or_empty (Skills worker)))"
    by (auto simp: is_qualified_def or_empty_def list_all_iff)
qed

lemma available_filter:
  assumes "lists_present workersData task" and "PreferredPhases task = Some preferred"
  shows "filter_throwing (is_available preferred) (qualified_workers task workersData)
           = Inr (phase_available_workers task workersData)"
  unfolding phase_available_workers_def
proof (rule filter_throwing_Inr)
  fix worker assume "worker \<in> set (qualified_workers task workersData)"
  then have "worker \<in> set workersData" by (simp add: qualified_workers_def)
  with assms obtain sl where "AvailableSlots worker = Some sl"
    by (auto simp: lists_present_def list_all_iff)
  with assms(2) show "is_available preferred worker
      = Inr (set (or_empty (AvailableSlots worker)) \<inter> set (or_empty (PreferredPhases task)) \<noteq> {})"
    by (auto simp: is_available_def or_empty_def list_ex_iff)
qed

lemma concurrency_task_eq:
  assumes "lists_present workersData task" and "MaxConcurrent task = Some m"
  shows "concurrency_task workersData task =
     Inr ((if int (length (qualified_workers task workersData)) < m
           then [concurrency_finding task (length (qualified_workers task workersData))] else [])
        @ (if PreferredPhases task \<noteq> Some []
              \<and> int (length (phase_available_workers task workersData)) < m
           then [phase_concurrency_finding task (length (phase_available_workers task workersData))]
           else []))"
proof -
  from assms(1) obtain preferred where p: "PreferredPhases task = Some preferred"
    by (auto simp: lists_present_def)
  show ?thesis
    using assms(2) p qualified_filter[OF assms(1)] available_filter[OF assms(1) p]
    by (simp add: concurrency_task_def and_then_def js_gt_def js_lt_def)
qed

lemma not_suffix_concurrency:
  "\<not> suffix ''infeasible-phase-concurrency'' (pre @ ''-infeasible-concurrency'')"
  by (simp add: suffix_to_prefix)

lemma suffix_phase_concurrency:
  "suffix ''infeasible-phase-concurrency'' (''task-'' @ x @ ''-infeasible-phase-concurrency'')"
  by (simp add: suffix_to_prefix)

lemma concurrency_task_warnings:
  assumes "lists_present workersData task"
  shows "concurrency_task workersData task = Inr (concurrency_warnings workersData task)"
proof (cases "MaxConcurrent task")
  case None
  from assms obtain preferred where p: "PreferredPhases task = Some preferred"
    by (auto simp: lists_present_def)
  show ?thesis
    using None p qualified_filter[OF assms] available_filter[OF assms p]
    by (simp add: concurrency_task_def and_then_def js_gt_def js_lt_def concurrency_warnings_def
        exceeds_def)
next
  case (Some m)
  then show ?thesis
    using concurrency_task_eq[OF assms Some]
    by (simp add: concurrency_warnings_def exceeds_def Let_def)
qed

text \<open>
  C5 (as amended). When the lists the check reads are present, the concurrency check
  returns, task by task: a warning citing \<open>MaxConcurrent\<close> and the number of qualified
  workers if and only if \<open>MaxConcurrent\<close> exceeds that number; and a second, distinct
  warning citing \<open>MaxConcurrent\<close> and the number of qualified workers with a slot in
  the task's preferred phases if and only if the preferred-phase list is not empty and
  \<open>MaxConcurrent\<close> exceeds that number.
\<close>

theorem concurrency_feasibility:
  assumes "\<forall>task \<in> set tasksData. lists_present workersData task"
  shows "validateMaxConcurrencyFeasibility workersData tasksData
           = Inr (concat (map (concurrency_warnings workersData) tasksData))
       \<and> (\<forall>task m q a. MaxConcurrent task = Some m \<longrightarrow>
            message (concurrency_finding task q)
              = ''Max concurrent ('' @ tmpl_int m @ '') exceeds qualified workers (''
                  @ tmpl_int (int q) @ '')''
            \<and> message (phase_concurrency_finding task a)
              = ''Max concurrent ('' @ tmpl_int m @ '') exceeds available qualified workers (''
                  @ tmpl_int (int a) @ '') in preferred phases''
            \<and> concurrency_finding task q \<noteq> phase_concurrency_finding task a)"
proof -
  have "validateMaxConcurrencyFeasibility workersData tasksData
           = Inr (concat (map (concurrency_warnings workersData) tasksData))"
    unfolding validateMaxConcurrencyFeasibility_def
    by (rule for_each_Inr) (use assms in \<open>simp add: concurrency_task_warnings\<close>)
  then show ?thesis
    by (simp add: concurrency_finding_def phase_concurrency_finding_def tmpl_num_def)
qed

lemma tmpl_int_2: "tmpl_int 2 = ''2''" by (simp add: tmpl_int_def digits.simps digit_char_def)

lemma tmpl_int_3: "tmpl_int 3 = ''3''" by (simp add: tmpl_int_def digits.simps digit_char_def)

lemma tmpl_int_120: "tmpl_int 120 = ''120''" by (simp add: tmpl_int_def digits.simps digit_char_def)

theorem concurrency_feasibility_witness:
  "validateMaxConcurrencyFeasibility
     [sample_worker ''W1'' [''X''] [1] 1, sample_worker ''W2'' [''X'', ''Y''] [2] 1,
      sample_worker ''W3'' [''Y''] [1] 1]
     [sample_task ''T1'' 1 [''X''] [] 3]
   = Inr [concurrency_finding (sample_task ''T1'' 1 [''X''] [] 3) 2]
   \<and> message (concurrency_finding (sample_task ''T1'' 1 [''X''] [] 3) 2)
     = ''Max concurrent (3) exceeds qualified workers (2)''"
proof -
  let ?ws = "[sample_worker ''W1'' [''X''] [1] 1, sample_worker ''W2'' [''X'', ''Y''] [2] 1,
      sample_worker ''W3'' [''Y''] [1] 1]"
  let ?t = "sample_task ''T1'' 1 [''X''] [] 3"
  have h: "\<forall>task \<in> set [?t]. lists_present ?ws task"
    by (simp add: lists_present_def sample_worker_def sample_task_def)
  note th = concurrency_feasibility [OF h]
  have w: "concurrency_warnings ?ws ?t = [concurrency_finding ?t 2]"
    by (simp add: concurrency_warnings_def qualified_workers_def phase_available_workers_def
        exceeds_def or_empty_def sample_worker_def sample_task_def numeral_2_eq_2)
  have m: "MaxConcurrent ?t = Some 3" by (simp add: sample_task_def)
  from th w have "validateMaxConcurrencyFeasibility ?ws [?t] = Inr [concurrency_finding ?t 2]"
    by simp
  moreover from th m have "message (concurrency_finding ?t 2)
      = ''Max concurrent ('' @ tmpl_int 3 @ '') exceeds qualified workers ('' @ tmpl_int (int 2) @ '')''"
    by blast
  ultimately show ?thesis by (simp add: tmpl_int_2 tmpl_int_3)
qed

text \<open>
  The claim as stated fails for a task without preferred phases: no qualified worker has
  a slot in the empty list, \<open>MaxConcurrent = 1\<close> exceeds that count of zero, and the
  second warning is not emitted.
\<close>

theorem concurrency_empty_phases_counterexample:
  "validateMaxConcurrencyFeasibility [sample_worker ''W1'' [''X''] [1] 1]
     [sample_task ''T1'' 1 [''X''] [] 1] = Inr []
   \<and> MaxConcurrent (sample_task ''T1'' 1 [''X''] [] 1) = Some 1
   \<and> length (phase_available_workers (sample_task ''T1'' 1 [''X''] [] 1)
        [sample_worker ''W1'' [''X''] [1] 1]) = 0"
  by (simp add: validateMaxConcurrencyFeasibility_def concurrency_task_def is_qualified_def
      and_then_def js_gt_def js_lt_def phase_available_workers_def qualified_workers_def
      or_empty_def sample_worker_def sample_task_def)

text \<open>
  C10. For a task whose \<open>PreferredPhases\<close> list is empty, whatever the workers, the
  findings the concurrency check pushes for that task are none or the single
  qualified-worker-count warning, and no id among them ends in
  \<open>infeasible-phase-concurrency\<close>.
\<close>

theorem empty_phases_no_phase_warning:
  assumes "PreferredPhases task = Some []"
    and "concurrency_task workersData task = Inr fs"
  shows "(\<forall>f \<in> set fs. \<not> suffix ''infeasible-phase-concurrency'' (id_f f))
       \<and> (fs = [] \<or> (\<exists>n. fs = [concurrency_finding task n]))"
proof -
  from assms have shape: "fs = [] \<or> (\<exists>n. fs = [concurrency_finding task n])"
    by (auto simp: concurrency_task_def and_then_def split: sum.splits if_splits)
  have e: "id_f (concurrency_finding task n)
      = (''task-'' @ tmpl_str (TaskID task)) @ ''-infeasible-concurrency''" for n
    by (simp add: concurrency_finding_def)
  have "\<not> suffix ''infeasible-phase-concurrency'' (id_f (concurrency_finding task n))" for n
    unfolding e by (rule not_suffix_concurrency)
  with shape show ?thesis by auto
qed

theorem empty_phases_no_phase_warning_witness:
  "concurrency_task [sample_worker ''W1'' [''X''] [] 1] (sample_task ''T1'' 1 [''X''] [] 2)
     = Inr [concurrency_finding (sample_task ''T1'' 1 [''X''] [] 2) 1]
   \<and> \<not> suffix ''infeasible-phase-concurrency''
        (id_f (concurrency_finding (sample_task ''T1'' 1 [''X''] [] 2) 1))"
proof -
  have r: "concurrency_task [sample_worker ''W1'' [''X''] [] 1] (sample_task ''T1'' 1 [''X''] [] 2)
     = Inr [concurrency_finding (sample_task ''T1'' 1 [''X''] [] 2) 1]"
    by (simp add: concurrency_task_def is_qualified_def and_then_def js_gt_def js_lt_def
        sample_worker_def sample_task_def)
  have p: "PreferredPhases (sample_task ''T1'' 1 [''X''] [] 2) = Some []"
    by (simp add: sample_task_def)
  from empty_phases_no_phase_warning [OF p r] r show ?thesis by simp
qed

subsection \<open>Phase-slot saturation\<close>

lemma digit_char_inj: "a < 10 \<Longrightarrow> b < 10 \<Longrightarrow> digit_char a = digit_char b \<Longrightarrow> a = b"
proof -
  assume "a < 10" "b < 10" "digit_char a = digit_char b"
  moreover have "distinct ''0123456789''" by simp
  ultimately show "a = b"
    unfolding digit_char_def by (simp add: nth_eq_iff_index_eq)
qed

lemma digit_char_not_minus: "d < 10 \<Longrightarrow> digit_char d \<noteq> CHR ''-''"
proof -
  assume "d < 10"
  then have "digit_char d \<in> set ''0123456789''" unfolding digit_char_def by (intro nth_mem) simp
  then show ?thesis by auto
qed

lemma digits_nonempty: "digits n \<noteq> []"
  by (subst digits.simps) simp

lemma length_digits_one: "(length (digits n) = 1) = (n < 10)"
proof (cases "n < 10")
  case True then show ?thesis by (subst digits.simps) simp
next
  case False
  then have "length (digits n) = Suc (length (digits (n div 10)))" by (subst digits.simps) simp
  with False digits_nonempty[of "n div 10"] show ?thesis by (cases "digits (n div 10)") auto
qed

lemma hd_digits: "hd (digits n) \<noteq> CHR ''-''"
proof (induction n rule: digits.induct)
  case (1 n)
  show ?case
  proof (cases "n < 10")
    case True then show ?thesis by (subst digits.simps) (simp add: digit_char_not_minus)
  next
    case False
    with 1 digits_nonempty[of "n div 10"] show ?thesis by (subst digits.simps) simp
  qed
qed

lemma digits_inj: "digits n = digits m \<Longrightarrow> n = m"
proof (induction n arbitrary: m rule: digits.induct)
  case (1 n)
  show ?case
  proof (cases "n < 10")
    case True
    with "1.prems" length_digits_one[of n] length_digits_one[of m] have m: "m < 10" by simp
    from True m "1.prems" have "digit_char n = digit_char m"
      by (subst (asm) digits.simps, subst (asm) (2) digits.simps) simp
    with True m show ?thesis by (rule digit_char_inj)
  next
    case False
    with "1.prems" length_digits_one[of n] length_digits_one[of m] have m: "\<not> m < 10" by simp
    from False m "1.prems" have e: "digits (n div 10) = digits (m div 10)"
      "digit_char (n mod 10) = digit_char (m mod 10)"
      by (subst (asm) digits.simps, subst (asm) (2) digits.simps, simp)+
    from "1.IH"[OF False e(1)] have "n div 10 = m div 10" .
    moreover from e(2) have "n mod 10 = m mod 10" by (intro digit_char_inj) simp_all
    ultimately show ?thesis by (metis div_mult_mod_eq)
  qed
qed

lemma tmpl_int_inj [simp]: "(tmpl_int i = tmpl_int j) = (i = j)"
proof
  assume e: "tmpl_int i = tmpl_int j"
  have neg: "CHR ''-'' # digits a \<noteq> digits b" for a b
    using hd_digits[of b] by (cases "digits b") auto
  show "i = j"
  proof (cases "i < 0"; cases "j < 0")
    assume "i < 0" "j < 0"
    with e have "nat (- i) = nat (- j)" by (simp add: tmpl_int_def digits_inj)
    with \<open>i < 0\<close> \<open>j < 0\<close> show ?thesis by simp
  next
    assume "i < 0" "\<not> j < 0"
    with e neg show ?thesis by (simp add: tmpl_int_def)
  next
    assume "\<not> i < 0" "j < 0"
    with e neg[of "nat (- j)" "nat i"] show ?thesis by (simp add: tmpl_int_def)
  next
    assume "\<not> i < 0" "\<not> j < 0"
    with e have "nat i = nat j" by (simp add: tmpl_int_def digits_inj)
    with \<open>\<not> i < 0\<close> \<open>\<not> j < 0\<close> show ?thesis by simp
  qed
qed simp

lemma get_or_zero_Cons:
  "get_or_zero ((k, Some v) # m) p = (if p = k then v else get_or_zero m p)"
  by (simp add: get_or_zero_def)

lemma get_or_zero_absent: "p \<notin> fst ` set m \<Longrightarrow> get_or_zero m p = 0"
  using map_of_eq_None_iff[of m p] by (simp add: get_or_zero_def)

lemma update_wf: "wf_map m \<Longrightarrow> wf_map (AList.update p (Some x) m)"
proof -
  have "list_all (\<lambda>entry. snd entry \<noteq> None) (AList.update p (Some x) m)"
    if "list_all (\<lambda>entry. snd entry \<noteq> None) m"
    using that by (induction m) auto
  then show "wf_map m \<Longrightarrow> wf_map (AList.update p (Some x) m)"
    by (simp add: wf_map_def distinct_update)
qed

lemma add_to_phase_wf:
  "wf_map m \<Longrightarrow> wf_map (add_to_phase (Some a) m p)"
  by (simp add: add_to_phase_def js_add_def update_wf)

lemma add_to_phase_get:
  "get_or_zero (add_to_phase (Some a) m p) q = get_or_zero m q + (if q = p then a else 0)"
  by (simp add: add_to_phase_def js_add_def get_or_zero_def update_conv')

lemma add_to_phase_keys:
  "fst ` set (add_to_phase amount m p) = insert p (fst ` set m)"
  by (simp add: add_to_phase_def dom_update)

lemma foldl_add_to_phase:
  "wf_map m \<Longrightarrow>
     wf_map (foldl (add_to_phase (Some a)) m ps)
     \<and> (\<forall>q. get_or_zero (foldl (add_to_phase (Some a)) m ps) q
             = get_or_zero m q + int (count_list ps q) * a)
     \<and> fst ` set (foldl (add_to_phase (Some a)) m ps) = fst ` set m \<union> set ps"
proof (induction ps arbitrary: m)
  case Nil
  then show ?case by simp
next
  case (Cons p ps)
  from Cons.IH[OF add_to_phase_wf[OF Cons.prems, of a p]]
  show ?case
    by (auto simp: add_to_phase_get add_to_phase_keys algebra_simps)
qed

lemma slots_loop_result:
  assumes "list_all (\<lambda>worker. AvailableSlots worker \<noteq> None \<and> MaxLoadPerPhase worker \<noteq> None) workersData"
    and "wf_map m"
  shows "\<exists>m'. slots_loop workersData m = Inr m' \<and> wf_map m'
           \<and> (\<forall>q. get_or_zero m' q = get_or_zero m q + available_capacity workersData q)"
  using assms
proof (induction workersData arbitrary: m)
  case Nil
  then show ?case by (simp add: available_capacity_def)
next
  case (Cons worker rest)
  from Cons.prems obtain slots l where w: "AvailableSlots worker = Some slots"
    "MaxLoadPerPhase worker = Some l" by auto
  let ?m1 = "foldl (add_to_phase (Some l)) m slots"
  from foldl_add_to_phase[OF Cons.prems(2), of l slots]
  have m1: "wf_map ?m1" "\<And>q. get_or_zero ?m1 q = get_or_zero m q + int (count_list slots q) * l"
    by auto
  from Cons.prems have "list_all (\<lambda>worker. AvailableSlots worker \<noteq> None \<and> MaxLoadPerPhase worker \<noteq> None) rest"
    by simp
  from Cons.IH[OF this m1(1)] obtain m' where
    "slots_loop rest ?m1 = Inr m'" "wf_map m'"
    "\<And>q. get_or_zero m' q = get_or_zero ?m1 q + available_capacity rest q" by blast
  with w m1(2) show ?case
    by (simp add: available_capacity_def or_empty_def load_of_def)
qed

lemma requirements_loop_result:
  assumes "list_all (\<lambda>task. PreferredPhases task \<noteq> None \<and> Duration task \<noteq> None) tasksData"
    and "wf_map m"
  shows "\<exists>m'. requirements_loop tasksData m = Inr m' \<and> wf_map m'
           \<and> (\<forall>q. get_or_zero m' q = get_or_zero m q + required_capacity tasksData q)
           \<and> (\<forall>q. (q \<in> fst ` set m') = (q \<in> fst ` set m \<or> demanded tasksData q))"
  using assms
proof (induction tasksData arbitrary: m)
  case Nil
  then show ?case by (simp add: required_capacity_def demanded_def)
next
  case (Cons task rest)
  from Cons.prems obtain preferred d where t: "PreferredPhases task = Some preferred"
    "Duration task = Some d" by auto
  let ?m1 = "foldl (add_to_phase (Some d)) m (phases_of task)"
  from foldl_add_to_phase[OF Cons.prems(2), of d "phases_of task"]
  have m1: "wf_map ?m1"
    "\<And>q. get_or_zero ?m1 q = get_or_zero m q + int (count_list (phases_of task) q) * d"
    "fst ` set ?m1 = fst ` set m \<union> set (phases_of task)"
    by auto
  from Cons.prems have "list_all (\<lambda>task. PreferredPhases task \<noteq> None \<and> Duration task \<noteq> None) rest"
    by simp
  from Cons.IH[OF this m1(1)] obtain m' where m':
    "requirements_loop rest ?m1 = Inr m'" "wf_map m'"
    "\<And>q. get_or_zero m' q = get_or_zero ?m1 q + required_capacity rest q"
    "\<And>q. (q \<in> fst ` set m') = (q \<in> fst ` set ?m1 \<or> demanded rest q)" by blast
  have step: "requirements_loop (task # rest) m = requirements_loop rest ?m1"
    using t by (simp add: phases_of_def)
  show ?case
    unfolding step using m' m1(2,3) t
    by (auto simp: required_capacity_def duration_of_def demanded_def)
qed

lemma saturation_entries:
  "wf_map R \<Longrightarrow>
   filter (\<lambda>f. id_f f = saturation_id p) (concat (map (saturation_entry S) R))
     = (if p \<in> fst ` set R \<and> get_or_zero S p < get_or_zero R p
        then [saturation_finding p (Some (get_or_zero R p)) (get_or_zero S p)] else [])"
proof (induction R)
  case Nil
  then show ?case by simp
next
  case (Cons e R)
  obtain k v where e: "e = (k, Some v)" using Cons.prems by (cases e) (auto simp: wf_map_def)
  from Cons.prems e have wf: "wf_map R" and k: "k \<notin> fst ` set R" by (auto simp: wf_map_def)
  have ent: "filter (\<lambda>f. id_f f = saturation_id p) (saturation_entry S e)
      = (if p = k \<and> get_or_zero S k < v then [saturation_finding k (Some v) (get_or_zero S k)] else [])"
    by (simp add: e saturation_entry_def js_gt_def js_lt_def saturation_finding_def
        saturation_id_def Let_def)
  show ?case
  proof (cases "p = k")
    case True
    with k have "p \<notin> fst ` set R" by simp
    with Cons.IH[OF wf] have "filter (\<lambda>f. id_f f = saturation_id p) (concat (map (saturation_entry S) R)) = []"
      by simp
    with True ent show ?thesis by (simp add: e get_or_zero_Cons)
  next
    case False
    with ent Cons.IH[OF wf] show ?thesis by (auto simp: e get_or_zero_Cons)
  qed
qed

lemma abs_weighted_sum:
  "\<bar>sum_list (map (\<lambda>x. int (c x) * f x) xs)\<bar> \<le> sum_list (map (\<lambda>x. int (c x) * \<bar>f x\<bar>) xs)"
proof (induction xs)
  case Nil
  then show ?case by simp
next
  case (Cons x xs)
  have "\<bar>int (c x) * f x + sum_list (map (\<lambda>x. int (c x) * f x) xs)\<bar>
      \<le> \<bar>int (c x) * f x\<bar> + \<bar>sum_list (map (\<lambda>x. int (c x) * f x) xs)\<bar>"
    by (rule abs_triangle_ineq)
  also have "\<bar>int (c x) * f x\<bar> = int (c x) * \<bar>f x\<bar>" by (simp add: abs_mult)
  finally show ?case using Cons.IH by simp
qed

lemma demanded_listed:
  "demanded tasksData p \<Longrightarrow> p \<in> set (listed_phases workersData tasksData)"
  by (auto simp: demanded_def listed_phases_def list_ex_iff)

lemma demanded_totals_safe:
  assumes "totals_in_safe_range workersData tasksData" and "demanded tasksData p"
  shows "safe_magnitude p" "safe_magnitude (required_capacity tasksData p)"
    "safe_magnitude (available_capacity workersData p)"
proof -
  from assms demanded_listed[OF assms(2), of workersData] have
    b: "safe_magnitude p" "offered_magnitude workersData p < 2 ^ 53"
      "required_magnitude tasksData p < 2 ^ 53"
    by (simp_all add: totals_in_safe_range_def list_all_iff)
  from b(1) show "safe_magnitude p" .
  have "\<bar>required_capacity tasksData p\<bar> \<le> required_magnitude tasksData p"
    unfolding required_capacity_def required_magnitude_def by (rule abs_weighted_sum)
  with b(3) show "safe_magnitude (required_capacity tasksData p)"
    by (simp add: safe_magnitude_def)
  have "\<bar>available_capacity workersData p\<bar> \<le> offered_magnitude workersData p"
    unfolding available_capacity_def offered_magnitude_def by (rule abs_weighted_sum)
  with b(2) show "safe_magnitude (available_capacity workersData p)"
    by (simp add: safe_magnitude_def)
qed

text \<open>
  C4 (as amended). When every worker has its slot list and load and every task its
  phase list and duration, and every listed phase number and, for every listed phase,
  the total of the magnitudes of the loads and that of the durations added up for it
  are below \<open>2 ^ 53\<close> in magnitude, the saturation check returns, and for every phase \<open>p\<close> its
  findings with the id of \<open>p\<close> are exactly one warning, reporting the required and the
  available total, when some task is attributed to \<open>p\<close> and the required total exceeds
  the available one, and none otherwise. The totals count a worker (a task) once for
  every occurrence of \<open>p\<close> in its list. For every phase some task is attributed to,
  the phase number and the two totals are below \<open>2 ^ 53\<close> in magnitude, and the
  message of its warning names the phase, the required and the available total.
\<close>

theorem phase_slot_saturation:
  assumes "capacity_fields_present workersData tasksData"
    and "totals_in_safe_range workersData tasksData"
  shows "\<exists>fs. validatePhaseSlotSaturation workersData tasksData = Inr fs
     \<and> (\<forall>p. filter (\<lambda>f. id_f f = saturation_id p) fs
            = (if demanded tasksData p
                  \<and> available_capacity workersData p < required_capacity tasksData p
               then [saturation_finding p (Some (required_capacity tasksData p))
                       (available_capacity workersData p)]
               else []))
     \<and> (\<forall>p. demanded tasksData p \<longrightarrow>
            safe_magnitude p
          \<and> safe_magnitude (required_capacity tasksData p)
          \<and> safe_magnitude (available_capacity workersData p)
          \<and> message (saturation_finding p (Some (required_capacity tasksData p))
                       (available_capacity workersData p))
            = ''Phase '' @ tmpl_int p @ '' is oversaturated: requires ''
                @ tmpl_int (required_capacity tasksData p)
                @ '' slots but only '' @ tmpl_int (available_capacity workersData p)
                @ '' available'')"
proof -
  have wf0: "wf_map []" by (simp add: wf_map_def)
  from assms(1) slots_loop_result[of workersData "[]"] wf0 obtain S where
    S: "slots_loop workersData [] = Inr S" "\<And>q. get_or_zero S q = available_capacity workersData q"
    by (auto simp: capacity_fields_present_def get_or_zero_def)
  from assms(1) requirements_loop_result[of tasksData "[]"] wf0 obtain R where
    R: "requirements_loop tasksData [] = Inr R" "wf_map R"
      "\<And>q. get_or_zero R q = required_capacity tasksData q"
      "\<And>q. (q \<in> fst ` set R) = demanded tasksData q"
    by (auto simp: capacity_fields_present_def get_or_zero_def)
  have run: "validatePhaseSlotSaturation workersData tasksData
      = Inr (concat (map (saturation_entry S) R))"
    by (simp add: validatePhaseSlotSaturation_def S(1) R(1))
  have found: "filter (\<lambda>f. id_f f = saturation_id p) (concat (map (saturation_entry S) R))
      = (if demanded tasksData p \<and> available_capacity workersData p < required_capacity tasksData p
         then [saturation_finding p (Some (required_capacity tasksData p))
                 (available_capacity workersData p)]
         else [])" for p
    using saturation_entries[OF R(2), of p S] by (simp add: S(2) R(3,4))
  have wording: "message (saturation_finding p (Some r) a)
      = ''Phase '' @ tmpl_int p @ '' is oversaturated: requires '' @ tmpl_int r
          @ '' slots but only '' @ tmpl_int a @ '' available''" for p r a
    by (simp add: saturation_finding_def tmpl_num_def)
  from run found demanded_totals_safe[OF assms(2)] wording show ?thesis
    by blast
qed

theorem phase_slot_saturation_witness:
  "\<exists>fs. validatePhaseSlotSaturation
           [sample_worker ''W1'' [''X''] [1] 2, sample_worker ''W2'' [''X''] [1] 2]
           [sample_task ''T1'' 5 [''X''] [1] 1] = Inr fs
       \<and> filter (\<lambda>f. id_f f = saturation_id 1) fs = [saturation_finding 1 (Some 5) 4]
       \<and> filter (\<lambda>f. id_f f = saturation_id 2) fs = []
       \<and> message (saturation_finding 1 (Some 5) 4)
           = ''Phase 1 is oversaturated: requires 5 slots but only 4 available''"
proof -
  let ?ws = "[sample_worker ''W1'' [''X''] [1] 2, sample_worker ''W2'' [''X''] [1] 2]"
  let ?ts = "[sample_task ''T1'' 5 [''X''] [1] 1]"
  have h: "capacity_fields_present ?ws ?ts"
    by (simp add: capacity_fields_present_def sample_worker_def sample_task_def)
  have b: "totals_in_safe_range ?ws ?ts"
    by (simp add: totals_in_safe_range_def listed_phases_def safe_magnitude_def
        offered_magnitude_def required_magnitude_def phases_of_def load_of_def duration_of_def
        or_empty_def sample_worker_def sample_task_def)
  have a: "available_capacity ?ws 1 = 4" "required_capacity ?ts 1 = 5" "demanded ?ts 1"
    "\<not> demanded ?ts 2"
    by (simp_all add: available_capacity_def required_capacity_def demanded_def phases_of_def
        load_of_def duration_of_def or_empty_def sample_worker_def sample_task_def)
  have t: "tmpl_int 1 = ''1''" "tmpl_int 4 = ''4''" "tmpl_int 5 = ''5''"
    by (simp_all add: tmpl_int_def digits.simps digit_char_def)
  from phase_slot_saturation [OF h b] obtain fs where
    "validatePhaseSlotSaturation ?ws ?ts = Inr fs"
    "\<And>p. filter (\<lambda>f. id_f f = saturation_id p) fs
            = (if demanded ?ts p \<and> available_capacity ?ws p < required_capacity ?ts p
               then [saturation_finding p (Some (required_capacity ?ts p)) (available_capacity ?ws p)]
               else [])"
    "\<And>p. demanded ?ts p \<Longrightarrow>
       message (saturation_finding p (Some (required_capacity ?ts p)) (available_capacity ?ws p))
            = ''Phase '' @ tmpl_int p @ '' is oversaturated: requires ''
                @ tmpl_int (required_capacity ?ts p)
                @ '' slots but only '' @ tmpl_int (available_capacity ?ws p) @ '' available''"
    by blast
  from this(1) this(2)[of 1] this(2)[of 2] this(3)[of 1] show ?thesis
    by (simp add: a t)
qed

text \<open>
  The claim as stated sums over the workers whose slot list contains the phase. A worker
  that lists phase 1 twice with load 2 then offers 2, below the 3 that the task
  requires, and a warning is due; the engine counts the load twice, finds 4, and emits
  none.
\<close>

theorem saturation_membership_counterexample:
  "validatePhaseSlotSaturation [sample_worker ''W1'' [''X''] [1, 1] 2]
     [sample_task ''T1'' 3 [''X''] [1] 1] = Inr []
   \<and> claimed_required [sample_task ''T1'' 3 [''X''] [1] 1] 1 = 3
   \<and> claimed_available [sample_worker ''W1'' [''X''] [1, 1] 2] 1 = 2"
  by (simp add: validatePhaseSlotSaturation_def add_to_phase_def get_or_zero_def js_add_def
      saturation_entry_def js_gt_def js_lt_def claimed_required_def claimed_available_def
      phases_of_def load_of_def duration_of_def or_empty_def sample_worker_def sample_task_def)

subsection \<open>Co-run rules against phase windows\<close>




lemma reduce_common_all:
  "list_all (\<lambda>v. v \<noteq> None) rest \<Longrightarrow>
   reduce_common (Some c) rest
     = Inr (Some (filter (\<lambda>p. \<forall>v \<in> set rest. p \<in> set (or_empty v)) c))"
proof (induction rest arbitrary: c)
  case Nil
  then show ?case by simp
next
  case (Cons v rest)
  then obtain ps where v: "v = Some ps" by auto
  have "filter (\<lambda>p. \<forall>v\<in>set rest. p \<in> set (or_empty v)) (filter (\<lambda>phase. phase \<in> set ps) c)
      = filter (\<lambda>p. p \<in> set ps \<and> (\<forall>v\<in>set rest. p \<in> set (or_empty v))) c"
    by (simp add: conj_commute)
  with Cons show ?case
    by (auto simp: v common_step_def or_empty_def)
qed

lemma reduce_phase_arrays:
  assumes "list_all (\<lambda>v. v \<noteq> None) phaseArrays" and "length phaseArrays > 1"
  shows "\<exists>commonPhases. reduce_common (hd phaseArrays) (tl phaseArrays) = Inr (Some commonPhases)
           \<and> (commonPhases = []) = ((\<Inter>v \<in> set phaseArrays. set (or_empty v)) = {})"
proof -
  from assms obtain c rest where pa: "phaseArrays = Some c # rest"
    by (cases phaseArrays) auto
  with assms(1) have r: "list_all (\<lambda>v. v \<noteq> None) rest" by simp
  let ?common = "filter (\<lambda>p. \<forall>v \<in> set rest. p \<in> set (or_empty v)) c"
  have "(?common = []) = ((\<Inter>v \<in> set phaseArrays. set (or_empty v)) = {})"
    by (auto simp: pa filter_empty_conv or_empty_def)
  with reduce_common_all[OF r, of c] show ?thesis by (simp add: pa)
qed





text \<open>
  A member task that does not declare its phases: the engine stores the empty
  \<open>PreferredPhases\<close> list of a member task as its phase set, and the intersection
  with it is empty.
\<close>

lemma empty_preferred_phases_conflict:
  "validateRuleConflicts [coRun_rule ''R1'' [''T1'', ''T2'']]
     [sample_task ''T1'' 1 [] [1, 2] 1, sample_task ''T2'' 1 [] [] 1]
   = Inr [conflict_finding (coRun_rule ''R1'' [''T1'', ''T2'']) [''T1'', ''T2'']]"
  by code_simp

subsection \<open>Circular co-run groups\<close>

lemma relatedTasks_subset: "set (relatedTasks coRunRules rule taskId) \<subseteq> set (co_run_tasks coRunRules)"
  by (auto simp: relatedTasks_def relatedRules_def co_run_tasks_def)

lemma hasCycle_returns_aux:
  fixes U :: "string set"
  shows "finite U \<Longrightarrow> set (co_run_tasks coRunRules) \<subseteq> U \<Longrightarrow>
         taskId \<in> U \<Longrightarrow> card (U - fst st) < depth \<Longrightarrow>
           \<exists>b st'. hasCycle depth coRunRules rule taskId st = Some (b, st') \<and> fst st \<subseteq> fst st'"
    and "finite U \<Longrightarrow> set (co_run_tasks coRunRules) \<subseteq> U \<Longrightarrow>
         set ts \<subseteq> U \<Longrightarrow> card (U - fst st) < depth \<Longrightarrow>
           \<exists>b st'. hasCycle_loop depth coRunRules rule taskId ts st = Some (b, st') \<and> fst st \<subseteq> fst st'"
proof (induction depth coRunRules rule taskId st and depth coRunRules rule taskId ts st
    rule: hasCycle_hasCycle_loop.induct)
  case (1 coRunRules rule taskId st)
  then show ?case by simp
next
  case (2 depth coRunRules rule taskId visited recursionStack)
  show ?case
  proof (cases "taskId \<in> recursionStack \<or> taskId \<in> visited")
    case True
    then show ?thesis by auto
  next
    case False
    then have fresh: "taskId \<notin> recursionStack" "taskId \<notin> visited" by auto
    from "2.prems"(3) fresh(2) "2.prems"(1) have "card (U - insert taskId visited) < card (U - visited)"
      by (intro psubset_card_mono) auto
    with "2.prems"(4) have c: "card (U - fst (insert taskId visited, insert taskId recursionStack)) < depth"
      by simp
    have s: "set (relatedTasks coRunRules rule taskId) \<subseteq> U"
      using relatedTasks_subset "2.prems"(2) by blast
    from "2.IH"[OF fresh "2.prems"(1,2) s c] obtain b st' where
      "hasCycle_loop depth coRunRules rule taskId (relatedTasks coRunRules rule taskId)
          (insert taskId visited, insert taskId recursionStack) = Some (b, st')"
      "insert taskId visited \<subseteq> fst st'" by auto
    with fresh show ?thesis by (cases st'; cases b) auto
  qed
next
  case (3 depth coRunRules rule taskId st)
  then show ?case by auto
next
  case (4 depth coRunRules rule taskId relatedTask rest st)
  show ?case
  proof (cases "relatedTask \<noteq> taskId")
    case True
    from "4.prems" have r: "relatedTask \<in> U" "set rest \<subseteq> U" by auto
    from "4.IH"(1)[OF True "4.prems"(1,2) r(1) "4.prems"(4)] obtain b st' where
      h: "hasCycle depth coRunRules rule relatedTask st = Some (b, st')" "fst st \<subseteq> fst st'" by auto
    show ?thesis
    proof (cases b)
      case True
      with h \<open>relatedTask \<noteq> taskId\<close> show ?thesis by auto
    next
      case False
      from h(2) have "U - fst st' \<subseteq> U - fst st" by auto
      with "4.prems"(1) have "card (U - fst st') \<le> card (U - fst st)"
        by (intro card_mono) auto
      with "4.prems"(4) have c: "card (U - fst st') < depth" by simp
      from False have bf: "b = False" by simp
      from "4.IH"(2)[OF \<open>relatedTask \<noteq> taskId\<close> h(1) refl bf "4.prems"(1,2) r(2) c]
      obtain b' st'' where
        "hasCycle_loop depth coRunRules rule taskId rest st' = Some (b', st'')" "fst st' \<subseteq> fst st''"
        by auto
      with h False \<open>relatedTask \<noteq> taskId\<close> show ?thesis by auto
    qed
  next
    case False
    from "4.prems" have r: "set rest \<subseteq> U" by auto
    from "4.IH"(3)[OF False "4.prems"(1,2) r "4.prems"(4)] False show ?thesis by auto
  qed
qed

lemma includes_or_empty:
  "(case x of None \<Rightarrow> False | Some ts \<Rightarrow> t \<in> set ts) = (t \<in> set (or_empty x))"
  by (cases x) (simp_all add: or_empty_def)

lemma related_member:
  "(u \<in> set (relatedTasks coRunRules rule t))
     = (\<exists>r \<in> set coRunRules. rule_id r \<noteq> rule_id rule \<and> t \<in> set (rule_tasks r)
          \<and> u \<in> set (rule_tasks r))"
  unfolding relatedTasks_def relatedRules_def includes_or_empty rule_tasks_def by auto

lemma has_neighbour_iff:
  "has_neighbour coRunRules rule t
     = (\<exists>r \<in> set coRunRules. rule_id r \<noteq> rule_id rule \<and> t \<in> set (rule_tasks r)
          \<and> (\<exists>u \<in> set (rule_tasks r). u \<noteq> t))"
  unfolding has_neighbour_def list_ex_iff Bex_def related_member by blast

lemma neighbour_sym:
  "u \<in> set (relatedTasks coRunRules rule t) \<Longrightarrow> u \<noteq> t \<Longrightarrow> has_neighbour coRunRules rule u"
  unfolding has_neighbour_iff related_member Bex_def by blast

lemma loop_skip:
  "\<forall>u \<in> set pre. u = t \<Longrightarrow>
   hasCycle_loop depth coRunRules rule t (pre @ rest) st
     = hasCycle_loop depth coRunRules rule t rest st"
  by (induction pre) auto

lemma hasCycle_no_neighbour:
  assumes "\<not> has_neighbour coRunRules rule t" and "t \<notin> V" and "t \<notin> S"
  shows "hasCycle (Suc depth) coRunRules rule t (V, S) = Some (False, insert t V, S)"
proof -
  from assms(1) have "\<forall>u \<in> set (relatedTasks coRunRules rule t). u = t"
    by (auto simp: has_neighbour_def list_ex_iff)
  from loop_skip[OF this, of depth coRunRules rule "[]"] assms(2,3) show ?thesis by simp
qed

lemma hasCycle_neighbour:
  "finite U \<Longrightarrow> set (co_run_tasks coRunRules) \<subseteq> U \<Longrightarrow> card (U - V) < depth \<Longrightarrow>
   S \<subseteq> V \<Longrightarrow> \<forall>v \<in> V - S. \<not> has_neighbour coRunRules rule v \<Longrightarrow>
   t \<in> U \<Longrightarrow> t \<notin> V \<Longrightarrow> has_neighbour coRunRules rule t \<Longrightarrow>
   \<exists>st'. hasCycle depth coRunRules rule t (V, S) = Some (True, st')"
proof (induction depth arbitrary: t V S)
  case 0
  then show ?case by simp
next
  case (Suc d)
  let ?V = "insert t V" and ?S = "insert t S"
  from Suc.prems have fresh: "t \<notin> S" "t \<notin> V" by auto
  from Suc.prems(8) obtain pre u rest where
    sp: "relatedTasks coRunRules rule t = pre @ u # rest" "u \<noteq> t" "\<forall>x \<in> set pre. x = t"
    unfolding has_neighbour_def list_ex_iff
    using split_list_first_prop[of "relatedTasks coRunRules rule t" "\<lambda>u. u \<noteq> t"] by auto
  have uU: "u \<in> U" using relatedTasks_subset[of coRunRules rule t] Suc.prems(2) sp(1) by auto
  have un: "has_neighbour coRunRules rule u"
    by (rule neighbour_sym[of u coRunRules rule t]) (simp_all add: sp)
  from Suc.prems(1,6,7) have "card (U - ?V) < card (U - V)"
    by (intro psubset_card_mono) auto
  with Suc.prems(3) have c: "card (U - ?V) < d" by simp
  have inner: "\<exists>st'. hasCycle d coRunRules rule u (?V, ?S) = Some (True, st')"
  proof (cases "u \<in> ?S")
    case True
    from c obtain d' where "d = Suc d'" by (cases d) auto
    with True show ?thesis by simp
  next
    case False
    have "u \<notin> ?V"
    proof
      assume "u \<in> ?V"
      with False sp(2) have "u \<in> V - S" by auto
      with Suc.prems(5) un show False by blast
    qed
    moreover from Suc.prems(4) have "?S \<subseteq> ?V" by auto
    moreover from Suc.prems(5) have "\<forall>v \<in> ?V - ?S. \<not> has_neighbour coRunRules rule v" by auto
    ultimately show ?thesis
      by (intro Suc.IH[of ?V ?S u] Suc.prems(1,2) c uU un)
  qed
  then obtain st' where "hasCycle d coRunRules rule u (?V, ?S) = Some (True, st')" by blast
  with sp(2) have "hasCycle_loop d coRunRules rule t (u # rest) (?V, ?S) = Some (True, st')"
    by simp
  with loop_skip[OF sp(3), of d coRunRules rule "u # rest" "(?V, ?S)"] sp(1)
  have "hasCycle_loop d coRunRules rule t (relatedTasks coRunRules rule t) (?V, ?S) = Some (True, st')"
    by simp
  with fresh show ?case by simp
qed

lemma scan_rule_result:
  "finite U \<Longrightarrow> set (co_run_tasks coRunRules) \<subseteq> U \<Longrightarrow> card U < depth \<Longrightarrow>
   set ts \<subseteq> U \<Longrightarrow> \<forall>v \<in> V. \<not> has_neighbour coRunRules rule v \<Longrightarrow>
   scan_rule depth coRunRules rule ts (V, {})
     = Some (case find (has_neighbour coRunRules rule) ts of
               None \<Rightarrow> [] | Some taskId \<Rightarrow> [circular_finding rule taskId])"
proof (induction ts arbitrary: V)
  case Nil
  then show ?case by simp
next
  case (Cons t rest)
  from Cons.prems(3) obtain d where d: "depth = Suc d" by (cases depth) auto
  from Cons.prems(1) have cu: "card (U - V) \<le> card U" by (intro card_mono) auto
  show ?case
  proof (cases "has_neighbour coRunRules rule t")
    case True
    with Cons.prems(5) have tv: "t \<notin> V" by blast
    from Cons.prems(4) have tu: "t \<in> U" by simp
    from cu Cons.prems(3) have cd: "card (U - V) < depth" by simp
    have inv: "\<forall>v \<in> V - {}. \<not> has_neighbour coRunRules rule v" using Cons.prems(5) by simp
    from hasCycle_neighbour[OF Cons.prems(1,2) cd _ inv tu tv True]
    obtain st' where "hasCycle depth coRunRules rule t (V, {}) = Some (True, st')" by auto
    with True show ?thesis by simp
  next
    case False
    show ?thesis
    proof (cases "t \<in> V")
      case True
      then have "hasCycle depth coRunRules rule t (V, {}) = Some (False, V, {})"
        by (simp add: d)
      moreover from Cons.prems(4) have "set rest \<subseteq> U" by simp
      note Cons.IH[OF Cons.prems(1,2,3) this Cons.prems(5)]
      ultimately show ?thesis using False by simp
    next
      case nv: False
      from hasCycle_no_neighbour[OF False nv, of "{}" d]
      have "hasCycle depth coRunRules rule t (V, {}) = Some (False, insert t V, {})"
        by (simp add: d)
      moreover from Cons.prems(4) have "set rest \<subseteq> U" by simp
      moreover from Cons.prems(5) False
      have "\<forall>v \<in> insert t V. \<not> has_neighbour coRunRules rule v" by simp
      note Cons.IH[OF Cons.prems(1,2,3) \<open>set rest \<subseteq> U\<close> this]
      ultimately show ?thesis using False by simp
    qed
  qed
qed

lemma for_each_rule_Some:
  "(\<And>x. x \<in> set xs \<Longrightarrow> body x = Some (g x)) \<Longrightarrow> for_each_rule body xs = Some (concat (map g xs))"
  by (induction xs) auto

lemma circular_rule_expected:
  assumes "length (co_run_tasks coRunRules) < depth" and "rule \<in> set coRunRules"
  shows "circular_rule depth coRunRules rule = Some (cycle_expected coRunRules rule)"
proof -
  let ?U = "set (co_run_tasks coRunRules)"
  have "card ?U \<le> length (co_run_tasks coRunRules)" by (rule card_length)
  with assms(1) have c: "card ?U < depth" by simp
  from assms(2) have s: "set (rule_tasks rule) \<subseteq> ?U"
    by (auto simp: co_run_tasks_def rule_tasks_def)
  from scan_rule_result[of ?U coRunRules depth "rule_tasks rule" "{}" rule] c s
  show ?thesis by (simp add: circular_rule_def cycle_expected_def rule_tasks_def)
qed

lemma validateCircularCoRuns_expected:
  assumes "length (co_run_tasks (filter (\<lambda>rule. rule_type rule = coRun) businessRules)) < depth"
  shows "validateCircularCoRuns depth businessRules
     = Some (concat (map (cycle_expected (filter (\<lambda>rule. rule_type rule = coRun) businessRules))
               (filter (\<lambda>rule. rule_type rule = coRun) businessRules)))"
  unfolding validateCircularCoRuns_def Let_def
  by (rule for_each_rule_Some) (rule circular_rule_expected[OF assms])

lemma cycle_expected_length: "length (cycle_expected coRunRules rule) \<le> 1"
  by (simp add: cycle_expected_def split: option.splits)

lemma cycle_has_neighbour:
  assumes "cross_rule_cycle coRunRules rs ts"
  shows "rs ! 0 \<in> set coRunRules \<and> ts ! 0 \<in> set (rule_tasks (rs ! 0))
       \<and> has_neighbour coRunRules (rs ! 0) (ts ! 0)"
proof -
  from assms have len: "2 \<le> length rs" "length ts = length rs"
    and mem: "\<forall>r \<in> set rs. r \<in> set coRunRules"
    and dr: "distinct (map rule_id rs)" and dt: "distinct ts"
    and inc: "\<forall>i < length rs. ts ! i \<in> set (rule_tasks (rs ! i))
                \<and> ts ! i \<in> set (rule_tasks (rs ! (Suc i mod length rs)))"
    by (auto simp: cross_rule_cycle_def list_all_iff)
  from len(1) have l0: "0 < length rs" by linarith
  from len(1) have l1: "1 < length rs" by linarith
  from l1 have m: "Suc 0 mod length rs = 1" by simp
  from inc l0 m have t0: "ts ! 0 \<in> set (rule_tasks (rs ! 0))" "ts ! 0 \<in> set (rule_tasks (rs ! 1))"
    by auto
  from inc l1 have t1: "ts ! 1 \<in> set (rule_tasks (rs ! 1))" by blast
  from l0 have rne: "rs \<noteq> []" by auto
  from nth_eq_iff_index_eq[OF dt, of 1 0] len(2) l1 rne have ne: "ts ! 1 \<noteq> ts ! 0" by auto
  from nth_eq_iff_index_eq[OF dr, of 1 0] l1 rne have ids: "rule_id (rs ! 1) \<noteq> rule_id (rs ! 0)"
    by auto
  from mem l0 l1 have r: "rs ! 0 \<in> set coRunRules" "rs ! 1 \<in> set coRunRules" by simp_all
  from r(2) ids t0(2) t1 ne have "has_neighbour coRunRules (rs ! 0) (ts ! 0)"
    unfolding has_neighbour_iff by blast
  with r(1) t0(1) show ?thesis by blast
qed

lemma no_shared_no_neighbour:
  assumes "no_shared_task coRunRules" and "rule \<in> set coRunRules" and "t \<in> set (rule_tasks rule)"
  shows "\<not> has_neighbour coRunRules rule t"
proof
  assume "has_neighbour coRunRules rule t"
  then obtain r where r: "r \<in> set coRunRules" "rule_id r \<noteq> rule_id rule" "t \<in> set (rule_tasks r)"
    unfolding has_neighbour_iff by blast
  from assms(1,2) r(1) have "rule_id rule = rule_id r \<or> set (rule_tasks rule) \<inter> set (rule_tasks r) = {}"
    by (simp add: no_shared_task_def list_all_iff)
  with r(2,3) assms(3) show False by auto
qed

text \<open>
  C3 (as amended). With a depth bound above the number of task ids listed by the co-run
  rules, the cycle check returns the findings of the co-run rules in order, each rule
  giving at most one finding (the scan of its task list stops at the first task for
  which a cycle is detected); a rule set whose co-run rules, with pairwise different
  ids, form a cross-rule cycle gives at least one finding; a rule set in which no task
  belongs to two co-run rules with different ids gives none.
\<close>

theorem circular_co_runs:
  assumes "length (co_run_tasks (coRunRules_of businessRules)) < depth"
  shows "\<exists>fs. validateCircularCoRuns depth businessRules = Some fs
     \<and> fs = concat (map (cycle_expected (coRunRules_of businessRules)) (coRunRules_of businessRules))
     \<and> (\<forall>rule. length (cycle_expected (coRunRules_of businessRules) rule) \<le> 1)
     \<and> ((\<exists>rs ts. cross_rule_cycle (coRunRules_of businessRules) rs ts) \<longrightarrow> fs \<noteq> [])
     \<and> (no_shared_task (coRunRules_of businessRules) \<longrightarrow> fs = [])"
proof -
  let ?R = "coRunRules_of businessRules"
  let ?fs = "concat (map (cycle_expected ?R) ?R)"
  have run: "validateCircularCoRuns depth businessRules = Some ?fs"
    using validateCircularCoRuns_expected[of businessRules depth] assms
    by (simp add: coRunRules_of_def)
  have cyc: "?fs \<noteq> []" if "cross_rule_cycle ?R rs ts" for rs ts
  proof -
    from cycle_has_neighbour[OF that] have
      r: "rs ! 0 \<in> set ?R" and "\<exists>t \<in> set (rule_tasks (rs ! 0)). has_neighbour ?R (rs ! 0) t"
      by blast+
    then have "find (has_neighbour ?R (rs ! 0)) (rule_tasks (rs ! 0)) \<noteq> None"
      by (auto simp: find_None_iff)
    then have "cycle_expected ?R (rs ! 0) \<noteq> []"
      by (auto simp: cycle_expected_def)
    with r show ?thesis by auto
  qed
  have none: "?fs = []" if "no_shared_task ?R"
  proof -
    have "cycle_expected ?R rule = []" if "rule \<in> set ?R" for rule
    proof -
      from no_shared_no_neighbour[OF \<open>no_shared_task ?R\<close> that]
      have "find (has_neighbour ?R rule) (rule_tasks rule) = None"
        by (simp add: find_None_iff)
      then show ?thesis by (simp add: cycle_expected_def)
    qed
    then show ?thesis by simp
  qed
  from run cyc none cycle_expected_length show ?thesis by blast
qed

theorem circular_co_runs_witness:
  "(\<exists>fs. validateCircularCoRuns 7
      [coRun_rule ''A'' [''T1'', ''T2''], coRun_rule ''B'' [''T2'', ''T3''],
       coRun_rule ''C'' [''T3'', ''T1'']] = Some fs \<and> fs \<noteq> [])
   \<and> validateCircularCoRuns 5
      [coRun_rule ''A'' [''T1'', ''T2''], coRun_rule ''B'' [''T3'', ''T4'']] = Some []"
proof -
  let ?cyc = "[coRun_rule ''A'' [''T1'', ''T2''], coRun_rule ''B'' [''T2'', ''T3''],
       coRun_rule ''C'' [''T3'', ''T1'']]"
  let ?sep = "[coRun_rule ''A'' [''T1'', ''T2''], coRun_rule ''B'' [''T3'', ''T4'']]"
  have d1: "length (co_run_tasks (coRunRules_of ?cyc)) < 7"
    and d2: "length (co_run_tasks (coRunRules_of ?sep)) < 5"
    by code_simp+
  have c: "cross_rule_cycle (coRunRules_of ?cyc) ?cyc [''T2'', ''T3'', ''T1'']"
    by code_simp
  have n: "no_shared_task (coRunRules_of ?sep)"
    by code_simp
  from circular_co_runs [OF d1] obtain fs where
    f: "validateCircularCoRuns 7 ?cyc = Some fs"
      "(\<exists>rs ts. cross_rule_cycle (coRunRules_of ?cyc) rs ts) \<longrightarrow> fs \<noteq> []"
    by blast
  from f(2) c have "fs \<noteq> []" by blast
  moreover from circular_co_runs [OF d2] obtain gs where
    g: "validateCircularCoRuns 5 ?sep = Some gs"
      "no_shared_task (coRunRules_of ?sep) \<longrightarrow> gs = []"
    by blast
  from g n have "validateCircularCoRuns 5 ?sep = Some []" by simp
  ultimately show ?thesis using f(1) by simp
qed

text \<open>
  The claim as stated fails for rules that share their id: \<open>hasCycle\<close> follows only
  rules with \<open>r.id !== rule.id\<close>, so three rules with one id that group
  \<open>{T1,T2}\<close>, \<open>{T2,T3}\<close> and \<open>{T3,T1}\<close> give no finding.
\<close>

theorem same_id_cycle_counterexample:
  "validateCircularCoRuns 7
     [coRun_rule ''R'' [''T1'', ''T2''], coRun_rule ''R'' [''T2'', ''T3''],
      coRun_rule ''R'' [''T3'', ''T1'']] = Some []"
  by code_simp

lemma hasCycle_returns:
  assumes "Suc (length (co_run_tasks coRunRules)) < depth"
  shows "\<exists>answer. hasCycle depth coRunRules rule taskId st = Some answer"
proof -
  let ?U = "insert taskId (set (co_run_tasks coRunRules))"
  have "card ?U \<le> Suc (card (set (co_run_tasks coRunRules)))" by (simp add: card_insert_if)
  also have "\<dots> \<le> Suc (length (co_run_tasks coRunRules))" by (simp add: card_length)
  finally have "card ?U < depth" using assms by simp
  moreover have "card (?U - fst st) \<le> card ?U" by (intro card_mono) auto
  ultimately have c: "card (?U - fst st) < depth" by simp
  from hasCycle_returns_aux(1)[of ?U coRunRules taskId st depth rule] c show ?thesis by auto
qed

lemma runValidations_Some:
  assumes "validateCircularCoRuns depth businessRules = Some fs"
  shows "\<exists>result. runValidations depth json_parses clientsData workersData tasksData businessRules
           = Some result
         \<and> (\<forall>depth'. validateCircularCoRuns depth' businessRules = Some fs \<longrightarrow>
               runValidations depth' json_parses clientsData workersData tasksData businessRules
                 = Some result)"
  using assms by (simp add: runValidations_def split: sum.splits)

text \<open>
  C8. Every check but the cycle check is defined by structural recursion on its lists.
  For the cycle check, with a depth bound above the number of task ids listed by the
  co-run rules plus one, \<open>hasCycle\<close> returns an answer from every state of the
  \<open>visited\<close> and \<open>recursionStack\<close> sets, for every rule and task, whatever cycles the
  rules contain: each call that goes deeper has added a task to \<open>visited\<close>. So
  \<open>runValidations\<close> returns a result (a finding list or an exception) on every input,
  the same for every such bound.
\<close>

theorem runValidations_terminates:
  assumes "Suc (length (co_run_tasks (coRunRules_of businessRules))) < depth"
  shows "(\<exists>result.
            runValidations depth json_parses clientsData workersData tasksData businessRules
              = Some result
            \<and> (\<forall>depth'. Suc (length (co_run_tasks (coRunRules_of businessRules))) < depth' \<longrightarrow>
                  runValidations depth' json_parses clientsData workersData tasksData businessRules
                    = Some result))
       \<and> (\<forall>rule taskId st. \<exists>answer.
             hasCycle depth (coRunRules_of businessRules) rule taskId st = Some answer)"
proof -
  let ?fs = "concat (map (cycle_expected (coRunRules_of businessRules)) (coRunRules_of businessRules))"
  have v: "validateCircularCoRuns d businessRules = Some ?fs"
    if "Suc (length (co_run_tasks (coRunRules_of businessRules))) < d" for d
    using validateCircularCoRuns_expected[of businessRules d] that
    by (simp add: coRunRules_of_def)
  from runValidations_Some[OF v[OF assms], of json_parses clientsData workersData tasksData]
  obtain result where
    r: "runValidations depth json_parses clientsData workersData tasksData businessRules = Some result"
      "\<And>depth'. validateCircularCoRuns depth' businessRules = Some ?fs \<Longrightarrow>
         runValidations depth' json_parses clientsData workersData tasksData businessRules
           = Some result"
    by blast
  from r(1) r(2)[OF v] hasCycle_returns[OF assms] show ?thesis by blast
qed

theorem runValidations_terminates_witness:
  "(\<exists>result. runValidations 8 (\<lambda>s. True) [] [] []
       [coRun_rule ''A'' [''T1'', ''T2''], coRun_rule ''B'' [''T2'', ''T3''],
        coRun_rule ''C'' [''T3'', ''T1'']] = Some result)
   \<and> (\<exists>answer. hasCycle 8
       (coRunRules_of [coRun_rule ''A'' [''T1'', ''T2''], coRun_rule ''B'' [''T2'', ''T3''],
          coRun_rule ''C'' [''T3'', ''T1'']])
       (coRun_rule ''A'' [''T1'', ''T2'']) ''T1'' ({}, {}) = Some answer)"
proof -
  let ?cyc = "[coRun_rule ''A'' [''T1'', ''T2''], coRun_rule ''B'' [''T2'', ''T3''],
       coRun_rule ''C'' [''T3'', ''T1'']]"
  have d: "Suc (length (co_run_tasks (coRunRules_of ?cyc))) < 8"
    by code_simp
  from runValidations_terminates [OF d, of "\<lambda>s. True" "[]" "[]" "[]"] show ?thesis
    by blast
qed

subsection \<open>The active flag\<close>

lemma erase_fields [simp]:
  "rule_id (erase_active r) = rule_id r" "rule_type (erase_active r) = rule_type r"
  "rule_name (erase_active r) = rule_name r" "parameters (erase_active r) = parameters r"
  by (simp_all add: erase_active_def)

lemma differ_erase: "differ_in_active_only rs rs' \<Longrightarrow> map erase_active rs = map erase_active rs'"
  unfolding differ_in_active_only_def
proof (induction rule: list_all2_induct)
  case Nil
  then show ?case by simp
next
  case (Cons r rs r' rs')
  from Cons(1) have "erase_active r' = erase_active r"
    by (cases r, cases r') (simp add: erase_active_def)
  with Cons show ?case by simp
qed

lemma filter_type_erase:
  "filter (\<lambda>rule. rule_type rule = k) (map erase_active rs)
     = map erase_active (filter (\<lambda>rule. rule_type rule = k) rs)"
  by (induction rs) auto

lemma relatedTasks_erase:
  "relatedTasks (map erase_active R) (erase_active rule) t = relatedTasks R rule t"
  by (induction R) (auto simp: relatedTasks_def relatedRules_def)

lemma hasCycle_erase:
  "hasCycle depth (map erase_active R) (erase_active rule) t st = hasCycle depth R rule t st"
  "hasCycle_loop depth (map erase_active R) (erase_active rule) t ts st
     = hasCycle_loop depth R rule t ts st"
proof (induction depth R rule t st and depth R rule t ts st rule: hasCycle_hasCycle_loop.induct)
  case (1 coRunRules rule taskId st)
  then show ?case by simp
next
  case (2 depth coRunRules rule taskId visited recursionStack)
  then show ?case by (simp add: relatedTasks_erase)
next
  case (3 depth coRunRules rule taskId st)
  then show ?case by simp
next
  case (4 depth coRunRules rule taskId relatedTask rest st)
  then show ?case by (simp split: option.splits prod.splits bool.splits)
qed

lemma circular_finding_erase: "circular_finding (erase_active rule) t = circular_finding rule t"
  by (simp add: circular_finding_def)

lemma scan_rule_erase:
  "scan_rule depth (map erase_active R) (erase_active rule) ts st = scan_rule depth R rule ts st"
  by (induction ts arbitrary: st)
     (simp_all add: hasCycle_erase circular_finding_erase split: option.splits prod.splits bool.splits)

lemma for_each_rule_map: "for_each_rule body (map f xs) = for_each_rule (\<lambda>x. body (f x)) xs"
  by (induction xs) (simp_all cong: option.case_cong)

lemma for_each_map: "for_each body (map f xs) = for_each (\<lambda>x. body (f x)) xs"
  by (induction xs) (simp_all cong: sum.case_cong)

lemma validateCircularCoRuns_erase:
  "validateCircularCoRuns depth (map erase_active rules) = validateCircularCoRuns depth rules"
  unfolding validateCircularCoRuns_def Let_def filter_type_erase for_each_rule_map
    circular_rule_def scan_rule_erase erase_fields ..

lemma find_erase:
  "find (\<lambda>rule. p_taskId (parameters rule) = k) (map erase_active pw)
     = map_option erase_active (find (\<lambda>rule. p_taskId (parameters rule) = k) pw)"
  by (induction pw) auto

lemma window_step_erase: "window_step (map erase_active pw) ts m t = window_step pw ts m t"
  by (simp add: window_step_def find_erase Let_def split: option.splits)

lemma conflict_rule_erase:
  "conflict_rule (map erase_active pw) ts (erase_active rule) = conflict_rule pw ts rule"
proof -
  have w: "window_step (map erase_active pw) ts = window_step pw ts"
    by (intro ext) (rule window_step_erase)
  have f: "conflict_finding (erase_active rule) = conflict_finding rule"
    by (intro ext) (simp add: conflict_finding_def)
  show ?thesis unfolding conflict_rule_def w f erase_fields ..
qed

lemma validateRuleConflicts_erase:
  "validateRuleConflicts (map erase_active rules) ts = validateRuleConflicts rules ts"
  unfolding validateRuleConflicts_def Let_def filter_type_erase for_each_map conflict_rule_erase ..

lemma runValidations_erase:
  "runValidations depth json_parses clientsData workersData tasksData (map erase_active rules)
     = runValidations depth json_parses clientsData workersData tasksData rules"
  unfolding runValidations_def validateCircularCoRuns_erase validateRuleConflicts_erase ..

text \<open>
  C9. Two rule lists that differ only in the \<open>active\<close> flags of their rules give the
  same result, finding for finding: no check reads the flag.
\<close>

theorem active_flag_noninterference:
  assumes "differ_in_active_only businessRules businessRules'"
  shows "runValidations depth json_parses clientsData workersData tasksData businessRules
           = runValidations depth json_parses clientsData workersData tasksData businessRules'"
  using runValidations_erase[of depth json_parses clientsData workersData tasksData businessRules]
    runValidations_erase[of depth json_parses clientsData workersData tasksData businessRules']
    differ_erase[OF assms]
  by simp

theorem active_flag_noninterference_witness:
  "runValidations 5 (\<lambda>s. True) [] [] [sample_task ''T1'' 1 [] [1] 1, sample_task ''T2'' 1 [] [2] 1]
     [coRun_rule ''A'' [''T1'', ''T2''], phaseWindow_rule ''P'' ''T2'' [3]]
   = runValidations 5 (\<lambda>s. True) [] [] [sample_task ''T1'' 1 [] [1] 1, sample_task ''T2'' 1 [] [2] 1]
     [(coRun_rule ''A'' [''T1'', ''T2''])\<lparr>active := False\<rparr>,
      (phaseWindow_rule ''P'' ''T2'' [3])\<lparr>active := False\<rparr>]"
proof -
  have "differ_in_active_only
     [coRun_rule ''A'' [''T1'', ''T2''], phaseWindow_rule ''P'' ''T2'' [3]]
     [(coRun_rule ''A'' [''T1'', ''T2''])\<lparr>active := False\<rparr>,
      (phaseWindow_rule ''P'' ''T2'' [3])\<lparr>active := False\<rparr>]"
    by (simp add: differ_in_active_only_def)
  from active_flag_noninterference [OF this] show ?thesis .
qed

subsection \<open>Exceptions\<close>

lemma for_each_returns:
  "(\<And>x. x \<in> set xs \<Longrightarrow> \<exists>fs. body x = Inr fs) \<Longrightarrow> \<exists>fs. for_each body xs = Inr fs"
proof (induction xs)
  case Nil
  then show ?case by simp
next
  case (Cons x xs)
  from Cons.prems[of x] obtain fs where "body x = Inr fs" by auto
  moreover from Cons.IH Cons.prems obtain gs where "for_each body xs = Inr gs" by auto
  ultimately show ?case by simp
qed

lemma and_then_returns:
  "a = Inr fs \<Longrightarrow> b = Inr gs \<Longrightarrow> and_then a b = Inr (fs @ gs)"
  by (simp add: and_then_def)

lemma validateMalformedLists_returns:
  assumes "lists_all_present clientsData workersData tasksData"
  shows "\<exists>fs. validateMalformedLists clientsData workersData tasksData = Inr fs"
proof -
  have "\<exists>fs. for_each malformed_slots workersData = Inr fs"
    using assms by (intro for_each_returns) (auto simp: lists_all_present_def list_all_iff malformed_slots_def)
  moreover have "\<exists>fs. for_each malformed_phases tasksData = Inr fs"
    using assms by (intro for_each_returns) (auto simp: lists_all_present_def list_all_iff malformed_phases_def)
  ultimately show ?thesis by (auto simp: validateMalformedLists_def and_then_def)
qed

lemma validateRangeValues_returns:
  assumes "lists_all_present clientsData workersData tasksData"
  shows "\<exists>fs. validateRangeValues clientsData workersData tasksData = Inr fs"
proof -
  have "\<exists>fs. for_each range_worker workersData = Inr fs"
    using assms
    by (intro for_each_returns) (auto simp: lists_all_present_def list_all_iff range_worker_def and_then_def)
  then show ?thesis by (auto simp: validateRangeValues_def and_then_def)
qed

lemma validateReferences_returns:
  assumes "lists_all_present clientsData workersData tasksData"
  shows "\<exists>fs. validateReferences clientsData workersData tasksData = Inr fs"
  unfolding validateReferences_def Let_def
  using assms
  by (intro for_each_returns) (auto simp: lists_all_present_def list_all_iff references_client_def)

lemma update_values_present:
  "values_present m \<Longrightarrow> values_present (AList.update k (Some v) m)"
  unfolding values_present_def by (induction m) auto

lemma find_in_set: "find P xs = Some x \<Longrightarrow> x \<in> set xs"
  by (induction xs) (auto split: if_splits)

lemma window_step_values_present:
  assumes "list_all (\<lambda>task. PreferredPhases task \<noteq> None) tasksData"
    and "values_present m"
  shows "values_present (window_step pw tasksData m t)"
proof -
  let ?m1 = "case find (\<lambda>x. TaskID x = Some t) tasksData of
               Some task \<Rightarrow> AList.update t (PreferredPhases task) m | None \<Rightarrow> m"
  have m1: "values_present ?m1"
  proof (cases "find (\<lambda>x. TaskID x = Some t) tasksData")
    case None
    with assms(2) show ?thesis by simp
  next
    case (Some task)
    from find_in_set[OF Some] assms(1) obtain ps where "PreferredPhases task = Some ps"
      by (auto simp: list_all_iff)
    with Some update_values_present[OF assms(2), of t ps] show ?thesis by simp
  qed
  show ?thesis
  proof (cases "find (\<lambda>rule. p_taskId (parameters rule) = Some t) pw")
    case None
    with m1 show ?thesis by (simp add: window_step_def Let_def)
  next
    case (Some phaseRule)
    with update_values_present[OF m1] show ?thesis by (simp add: window_step_def Let_def)
  qed
qed

lemma foldl_window_values_present:
  assumes "list_all (\<lambda>task. PreferredPhases task \<noteq> None) tasksData"
  shows "values_present m \<Longrightarrow> values_present (foldl (window_step pw tasksData) m coRunTasks)"
proof (induction coRunTasks arbitrary: m)
  case Nil
  then show ?case by simp
next
  case (Cons t rest)
  from Cons.IH[OF window_step_values_present[OF assms Cons.prems]] show ?case by simp
qed

lemma conflict_rule_returns:
  assumes "list_all (\<lambda>task. PreferredPhases task \<noteq> None) tasksData"
  shows "\<exists>fs. conflict_rule pw tasksData coRunRule = Inr fs"
proof -
  let ?m = "foldl (window_step pw tasksData) [] (or_empty (p_tasks (parameters coRunRule)))"
  have "values_present ?m"
    by (rule foldl_window_values_present[OF assms]) (simp add: values_present_def)
  then have some: "list_all (\<lambda>v. v \<noteq> None) (map snd ?m)"
    unfolding values_present_def list_all_iff by simp
  show ?thesis
  proof (cases "length (map snd ?m) > 1")
    case True
    from reduce_phase_arrays[OF some True] obtain commonPhases where
      "reduce_common (hd (map snd ?m)) (tl (map snd ?m)) = Inr (Some commonPhases)" by blast
    with True show ?thesis unfolding conflict_rule_def Let_def by simp
  next
    case False
    then show ?thesis unfolding conflict_rule_def Let_def by simp
  qed
qed

lemma validateRuleConflicts_returns:
  assumes "lists_all_present clientsData workersData tasksData"
  shows "\<exists>fs. validateRuleConflicts businessRules tasksData = Inr fs"
proof -
  from assms have "list_all (\<lambda>task. PreferredPhases task \<noteq> None) tasksData"
    by (simp add: lists_all_present_def list_all_iff)
  then show ?thesis
    unfolding validateRuleConflicts_def Let_def
    by (intro for_each_returns conflict_rule_returns)
qed

lemma validateWorkerOverload_returns:
  assumes "lists_all_present clientsData workersData tasksData"
  shows "\<exists>fs. validateWorkerOverload workersData = Inr fs"
  unfolding validateWorkerOverload_def
  using assms
  by (intro for_each_returns) (auto simp: lists_all_present_def list_all_iff overload_worker_def)

lemma slots_loop_returns:
  "list_all (\<lambda>worker. AvailableSlots worker \<noteq> None) workersData \<Longrightarrow>
   \<exists>m'. slots_loop workersData m = Inr m'"
  by (induction workersData arbitrary: m) auto

lemma requirements_loop_returns:
  "list_all (\<lambda>task. PreferredPhases task \<noteq> None) tasksData \<Longrightarrow>
   \<exists>m'. requirements_loop tasksData m = Inr m'"
  by (induction tasksData arbitrary: m) (auto simp: Let_def)

lemma validatePhaseSlotSaturation_returns:
  assumes "lists_all_present clientsData workersData tasksData"
  shows "\<exists>fs. validatePhaseSlotSaturation workersData tasksData = Inr fs"
proof -
  from assms have "list_all (\<lambda>worker. AvailableSlots worker \<noteq> None) workersData"
    "list_all (\<lambda>task. PreferredPhases task \<noteq> None) tasksData"
    by (simp_all add: lists_all_present_def list_all_iff)
  with slots_loop_returns[of workersData "[]"] requirements_loop_returns[of tasksData "[]"]
  show ?thesis by (auto simp: validatePhaseSlotSaturation_def)
qed

lemma skills_loop_returns:
  "list_all (\<lambda>worker. Skills worker \<noteq> None) workersData \<Longrightarrow>
   \<exists>skills. skills_loop workersData availableSkills = Inr skills"
  by (induction workersData arbitrary: availableSkills) auto

lemma validateSkillCoverage_returns:
  assumes "lists_all_present clientsData workersData tasksData"
  shows "\<exists>fs. validateSkillCoverage workersData tasksData = Inr fs"
proof -
  from assms have "list_all (\<lambda>worker. Skills worker \<noteq> None) workersData"
    by (simp add: lists_all_present_def list_all_iff)
  from skills_loop_returns[OF this, of "{}"] obtain skills where
    s: "skills_loop workersData {} = Inr skills" by blast
  have "\<exists>fs. for_each (coverage_task skills) tasksData = Inr fs"
    using assms
    by (intro for_each_returns) (auto simp: lists_all_present_def list_all_iff coverage_task_def)
  with s show ?thesis by (simp add: validateSkillCoverage_def)
qed

lemma validateMaxConcurrencyFeasibility_returns:
  assumes "lists_all_present clientsData workersData tasksData"
  shows "\<exists>fs. validateMaxConcurrencyFeasibility workersData tasksData = Inr fs"
proof -
  have "lists_present workersData task" if "task \<in> set tasksData" for task
    using assms that by (auto simp: lists_all_present_def lists_present_def list_all_iff)
  then show ?thesis
    unfolding validateMaxConcurrencyFeasibility_def
    by (intro for_each_returns) (auto simp: concurrency_task_warnings)
qed

text \<open>
  On every input whose records carry their list-typed properties, whatever other
  properties are missing, \<open>runValidations\<close> does not throw: every check returns its
  findings and the result is the complete list, the findings of the twelve checks in the
  order of the checks.
\<close>

theorem runValidations_never_throws:
  assumes "lists_all_present clientsData workersData tasksData"
    and "length (co_run_tasks (coRunRules_of businessRules)) < depth"
  shows "\<exists>malformed range refs circular conflicts overload saturation coverage concurrency.
      validateMalformedLists clientsData workersData tasksData = Inr malformed
    \<and> validateRangeValues clientsData workersData tasksData = Inr range
    \<and> validateReferences clientsData workersData tasksData = Inr refs
    \<and> validateCircularCoRuns depth businessRules = Some circular
    \<and> validateRuleConflicts businessRules tasksData = Inr conflicts
    \<and> validateWorkerOverload workersData = Inr overload
    \<and> validatePhaseSlotSaturation workersData tasksData = Inr saturation
    \<and> validateSkillCoverage workersData tasksData = Inr coverage
    \<and> validateMaxConcurrencyFeasibility workersData tasksData = Inr concurrency
    \<and> runValidations depth json_parses clientsData workersData tasksData businessRules
        = Some (Inr (validateRequiredFields clientsData workersData tasksData
            @ validateDuplicateIds clientsData workersData tasksData
            @ malformed @ range @ validateJSONFields json_parses clientsData @ refs
            @ circular @ conflicts @ overload @ saturation @ coverage @ concurrency))"
proof -
  note p = assms(1)
  from validateMalformedLists_returns[OF p] obtain malformed where
    c3: "validateMalformedLists clientsData workersData tasksData = Inr malformed" by blast
  from validateRangeValues_returns[OF p] obtain range where
    c4: "validateRangeValues clientsData workersData tasksData = Inr range" by blast
  from validateReferences_returns[OF p] obtain refs where
    c6: "validateReferences clientsData workersData tasksData = Inr refs" by blast
  from validateCircularCoRuns_expected[of businessRules depth] assms(2) obtain circular where
    c7: "validateCircularCoRuns depth businessRules = Some circular"
    by (auto simp: coRunRules_of_def)
  from validateRuleConflicts_returns[OF p] obtain conflicts where
    c8: "validateRuleConflicts businessRules tasksData = Inr conflicts" by blast
  from validateWorkerOverload_returns[OF p] obtain overload where
    c9: "validateWorkerOverload workersData = Inr overload" by blast
  from validatePhaseSlotSaturation_returns[OF p] obtain saturation where
    c10: "validatePhaseSlotSaturation workersData tasksData = Inr saturation" by blast
  from validateSkillCoverage_returns[OF p] obtain coverage where
    c11: "validateSkillCoverage workersData tasksData = Inr coverage" by blast
  from validateMaxConcurrencyFeasibility_returns[OF p] obtain concurrency where
    c12: "validateMaxConcurrencyFeasibility workersData tasksData = Inr concurrency" by blast
  have "runValidations depth json_parses clientsData workersData tasksData businessRules
        = Some (Inr (validateRequiredFields clientsData workersData tasksData
            @ validateDuplicateIds clientsData workersData tasksData
            @ malformed @ range @ validateJSONFields json_parses clientsData @ refs
            @ circular @ conflicts @ overload @ saturation @ coverage @ concurrency))"
    by (simp add: runValidations_def and_then_def c3 c4 c6 c7 c8 c9 c10 c11 c12)
  with c3 c4 c6 c7 c8 c9 c10 c11 c12 show ?thesis by blast
qed

theorem runValidations_never_throws_witness:
  "\<exists>fs. runValidations 1 (\<lambda>s. True) [bare_client] [bare_worker] [bare_task] [] = Some (Inr fs)"
proof -
  have p: "lists_all_present [bare_client] [bare_worker] [bare_task]"
    by (simp add: lists_all_present_def bare_client_def bare_worker_def bare_task_def)
  have d: "length (co_run_tasks (coRunRules_of [])) < 1"
    by (simp add: co_run_tasks_def coRunRules_of_def)
  from runValidations_never_throws [OF p d, of "\<lambda>s. True"] show ?thesis by blast
qed

text \<open>
  A record without one of its lists is another matter. Check 1 itself provides for it
  and reports an absent \<open>Skills\<close>, \<open>AvailableSlots\<close> or \<open>RequiredSkills\<close> as a missing
  required field; the later checks then read \<open>worker.AvailableSlots.some\<close>,
  \<open>task.PreferredPhases.some\<close>, \<open>client.RequestedTaskIDs\<close>, \<open>worker.Skills.forEach\<close>
  and \<open>task.RequiredSkills\<close> without a guard.
\<close>

lemma isl_TypeError: "isl (r :: error + 'a) \<Longrightarrow> r = Inl TypeError"
proof (cases r)
  case (Inl e)
  then show ?thesis by (cases e) simp
next
  case (Inr a)
  assume "isl r"
  with Inr show ?thesis by simp
qed

lemma isl_and_then: "isl (and_then a b) = (isl a \<or> isl b)"
  by (cases a; cases b) (simp_all add: and_then_def)

lemma isl_for_each: "isl (for_each body xs) = (\<exists>x \<in> set xs. isl (body x))"
proof (induction xs)
  case Nil
  then show ?case by simp
next
  case (Cons x xs)
  then show ?case by (cases "body x"; cases "for_each body xs") auto
qed

lemma isl_skills_loop: "isl (skills_loop workersData S) = (\<exists>worker \<in> set workersData. Skills worker = None)"
  by (induction workersData arbitrary: S) (auto split: option.splits)

lemma malformed_throws:
  "isl (validateMalformedLists clientsData workersData tasksData)
     = ((\<exists>worker \<in> set workersData. AvailableSlots worker = None)
        \<or> (\<exists>task \<in> set tasksData. PreferredPhases task = None))"
  by (auto simp: validateMalformedLists_def isl_and_then isl_for_each malformed_slots_def
      malformed_phases_def split: option.splits)

lemma references_throws:
  "isl (validateReferences clientsData workersData tasksData)
     = (\<exists>client \<in> set clientsData. RequestedTaskIDs client = None)"
  by (auto simp: validateReferences_def Let_def isl_for_each references_client_def
      split: option.splits)

lemma coverage_throws:
  "isl (validateSkillCoverage workersData tasksData)
     = ((\<exists>worker \<in> set workersData. Skills worker = None)
        \<or> (\<exists>task \<in> set tasksData. RequiredSkills task = None))"
proof (cases "skills_loop workersData {}")
  case (Inl e)
  with isl_skills_loop[of workersData "{}"] show ?thesis
    by (auto simp: validateSkillCoverage_def)
next
  case (Inr skills)
  with isl_skills_loop[of workersData "{}"] show ?thesis
    by (auto simp: validateSkillCoverage_def isl_for_each coverage_task_def split: option.splits)
qed

text \<open>
  C2. The claim is that \<open>runValidations\<close> never throws when a record is missing a
  field: the record is skipped for that check, the other checks run and a complete
  finding list is returned. The engine does the opposite on every input in which some
  client has no \<open>RequestedTaskIDs\<close>, some worker no \<open>Skills\<close> or \<open>AvailableSlots\<close>, or
  some task no \<open>RequiredSkills\<close> or \<open>PreferredPhases\<close>: the run ends in a TypeError and
  no finding list is returned, so that the missing-field findings of check 1 are lost
  with it.
\<close>

theorem absent_list_throws:
  assumes "\<not> lists_all_present clientsData workersData tasksData"
    and "length (co_run_tasks (coRunRules_of businessRules)) < depth"
  shows "runValidations depth json_parses clientsData workersData tasksData businessRules
           = Some (Inl TypeError)"
proof -
  let ?first = "and_then (Inr (validateRequiredFields clientsData workersData tasksData))
          (and_then (Inr (validateDuplicateIds clientsData workersData tasksData))
          (and_then (validateMalformedLists clientsData workersData tasksData)
          (and_then (validateRangeValues clientsData workersData tasksData)
          (and_then (Inr (validateJSONFields json_parses clientsData))
                    (validateReferences clientsData workersData tasksData)))))"
  show ?thesis
  proof (cases ?first)
    case (Inl e)
    then have "?first = Inl TypeError" by (cases e) simp
    then show ?thesis by (simp add: runValidations_def)
  next
    case (Inr errors)
    then have "\<not> isl ?first" by simp
    then have early: "\<not> isl (validateMalformedLists clientsData workersData tasksData)"
      "\<not> isl (validateReferences clientsData workersData tasksData)"
      by (simp_all add: isl_and_then)
    with assms(1) have "isl (validateSkillCoverage workersData tasksData)"
      unfolding malformed_throws references_throws coverage_throws lists_all_present_def
        list_all_iff by auto
    then have late: "isl (and_then (Inr (errors @ circular))
                 (and_then (validateRuleConflicts businessRules tasksData)
                 (and_then (validateWorkerOverload workersData)
                 (and_then (validatePhaseSlotSaturation workersData tasksData)
                 (and_then (validateSkillCoverage workersData tasksData)
                           (validateMaxConcurrencyFeasibility workersData tasksData))))))" for circular
      by (simp add: isl_and_then)
    from validateCircularCoRuns_expected[of businessRules depth] assms(2) obtain circular where
      c: "validateCircularCoRuns depth businessRules = Some circular"
      by (auto simp: coRunRules_of_def)
    from isl_TypeError[OF late[of circular]] Inr c show ?thesis
      by (simp add: runValidations_def)
  qed
qed

theorem absent_list_throws_witness:
  "validateRequiredFields [] [(sample_worker ''W1'' [''X''] [1] 1)\<lparr>AvailableSlots := None\<rparr>] []
     = [missing_finding ''worker'' workers (Some ''W1'') ''AvailableSlots'' '' or empty'']
   \<and> runValidations 1 (\<lambda>s. True)
        [] [(sample_worker ''W1'' [''X''] [1] 1)\<lparr>AvailableSlots := None\<rparr>] [] []
     = Some (Inl TypeError)
   \<and> runValidations 1 (\<lambda>s. True)
        [] [(sample_worker ''W1'' [''X''] [1] 1)\<lparr>Skills := None\<rparr>] [] []
     = Some (Inl TypeError)
   \<and> runValidations 1 (\<lambda>s. True)
        [] [] [(sample_task ''T1'' 1 [''X''] [1] 1)\<lparr>PreferredPhases := None\<rparr>] []
     = Some (Inl TypeError)
   \<and> runValidations 1 (\<lambda>s. True)
        [] [] [(sample_task ''T1'' 1 [''X''] [1] 1)\<lparr>RequiredSkills := None\<rparr>] []
     = Some (Inl TypeError)
   \<and> runValidations 1 (\<lambda>s. True)
        [(sample_client ''C1'' [])\<lparr>RequestedTaskIDs := None\<rparr>] [] [] []
     = Some (Inl TypeError)"
proof -
  have d: "length (co_run_tasks (coRunRules_of [])) < 1"
    by (simp add: co_run_tasks_def coRunRules_of_def)
  have found: "validateRequiredFields [] [(sample_worker ''W1'' [''X''] [1] 1)\<lparr>AvailableSlots := None\<rparr>] []
     = [missing_finding ''worker'' workers (Some ''W1'') ''AvailableSlots'' '' or empty'']"
    by code_simp
  have slots: "\<not> lists_all_present
      [] [(sample_worker ''W1'' [''X''] [1] 1)\<lparr>AvailableSlots := None\<rparr>] []"
    by (simp add: lists_all_present_def sample_worker_def)
  have skills: "\<not> lists_all_present
      [] [(sample_worker ''W1'' [''X''] [1] 1)\<lparr>Skills := None\<rparr>] []"
    by (simp add: lists_all_present_def sample_worker_def)
  have phases: "\<not> lists_all_present
      [] [] [(sample_task ''T1'' 1 [''X''] [1] 1)\<lparr>PreferredPhases := None\<rparr>]"
    by (simp add: lists_all_present_def sample_task_def)
  have required: "\<not> lists_all_present
      [] [] [(sample_task ''T1'' 1 [''X''] [1] 1)\<lparr>RequiredSkills := None\<rparr>]"
    by (simp add: lists_all_present_def sample_task_def)
  have requested: "\<not> lists_all_present
      [(sample_client ''C1'' [])\<lparr>RequestedTaskIDs := None\<rparr>] [] []"
    by (simp add: lists_all_present_def sample_client_def)
  from found absent_list_throws [OF slots d] absent_list_throws [OF skills d]
    absent_list_throws [OF phases d] absent_list_throws [OF required d]
    absent_list_throws [OF requested d]
  show ?thesis by blast
qed

end
